theory Spec2Isabelle
  imports Complex_Main "HOL-Library.Word"
begin

section \<open>The per-core CPU load poller (cpu\_load\_poller.c)\<close>

text \<open>
  The program polls the kernel counter file, keeps two generations of counters per core,
  and prints one CSV row of load percentages per tick. The development embeds the C
  functions \<^verbatim>\<open>get_total_time\<close>, \<^verbatim>\<open>get_idle_time\<close>, \<^verbatim>\<open>calculate_cpu_load\<close>,
  \<^verbatim>\<open>count_cpus\<close>, \<^verbatim>\<open>parse_cpu_stats\<close>, the signal handler and \<^verbatim>\<open>main\<close>, together
  with the parts of the C library they rely on (\<^verbatim>\<open>fgets\<close>, \<^verbatim>\<open>sscanf\<close> for the two
  format strings used, \<^verbatim>\<open>printf\<close> for the three conversions used, and double
  arithmetic). Diagnostics written to the error stream are outside the model.
\<close>

subsection \<open>Characters and lines: \<^verbatim>\<open>isspace\<close>, \<^verbatim>\<open>isdigit\<close>, \<^verbatim>\<open>fgets\<close>\<close>

definition newline :: char where
  "newline = char_of (10 :: nat)"

definition isspace :: "char \<Rightarrow> bool" where
  \<comment> \<open>the C locale: space, and the control characters 9 to 13 (tab, newline, vertical tab,
      form feed, carriage return)\<close>
  "isspace c = (let n = (of_char c :: nat) in n = 32 \<or> (9 \<le> n \<and> n \<le> 13))"

definition isdigit :: "char \<Rightarrow> bool" where
  "isdigit c = (let n = (of_char c :: nat) in 48 \<le> n \<and> n \<le> 57)"

definition digit_val :: "char \<Rightarrow> int" where
  "digit_val c = of_char c - 48"

text \<open>
  \<^verbatim>\<open>fgets(line, n, file)\<close> on the unread part of the file: nothing to read gives NULL
  (\<open>None\<close>); otherwise it stores at most \<open>n - 1\<close> characters, stopping after a
  newline, and leaves the rest unread. The stored line is a C string, so the callers
  (which hand it to \<^verbatim>\<open>sscanf\<close>) see it only up to the first NUL character.
\<close>

fun take_line :: "nat \<Rightarrow> string \<Rightarrow> string \<times> string" where
  "take_line n [] = ([], [])"
| "take_line n (c # cs) =
     (if n = 0 then ([], c # cs)
      else if c = newline then ([c], cs)
      else (case take_line (n - 1) cs of (l, r) \<Rightarrow> (c # l, r)))"

definition fgets :: "nat \<Rightarrow> string \<Rightarrow> (string \<times> string) option" where
  "fgets n file = (if file = [] then None else Some (take_line (n - 1) file))"

definition c_string :: "string \<Rightarrow> string" where
  "c_string buf = takeWhile (\<lambda>c. c \<noteq> char_of (0 :: nat)) buf"

text \<open>
  Both reading loops have the shape \<^verbatim>\<open>while (fgets(line, sizeof(line), file) != NULL ...)\<close>
  with a buffer of 256 characters: \<open>file_lines\<close> is the sequence of lines the successive
  calls of \<^verbatim>\<open>fgets\<close> return until the file is exhausted.
\<close>

function file_lines :: "string \<Rightarrow> string list" where
  "file_lines file =
     (case fgets 256 file of
        None \<Rightarrow> []
      | Some (line, rest) \<Rightarrow> line # file_lines rest)"
  by pat_completeness auto
termination
proof (relation "measure length")
  fix inp :: string and x :: "string \<times> string" and line rest :: string
  assume got: "fgets 256 inp = Some x" and x: "(line, rest) = x"
  have shorter: "length (snd (take_line n cs)) \<le> length cs" for n cs
    by (induction n cs rule: take_line.induct) (auto split: prod.splits)
  from got x have ne: "inp \<noteq> []" and tl: "take_line 255 inp = (line, rest)"
    by (auto simp: fgets_def split: if_splits)
  from ne obtain c cs where inp: "inp = c # cs"
    by (cases inp) auto
  have "length rest < length inp"
  proof (cases "c = newline")
    case True
    with tl inp show ?thesis by simp
  next
    case False
    with tl inp have "rest = snd (take_line 254 cs)"
      by (auto split: prod.splits)
    with shorter [of 254 cs] inp show ?thesis by simp
  qed
  then show "(rest, inp) \<in> measure length"
    by simp
qed simp

declare file_lines.simps [simp del]

subsection \<open>\<^verbatim>\<open>sscanf\<close> for the directives the program uses\<close>

text \<open>
  A format string is a list of directives. \<^verbatim>\<open>"cpu%d"\<close> is three literal characters and
  a \<^verbatim>\<open>%d\<close>; the second format continues with ten groups of a white-space directive and
  a \<^verbatim>\<open>%llu\<close>. As in C, a literal must match the next input character exactly; a
  white-space directive skips any amount of white space (also none); \<^verbatim>\<open>%d\<close> and
  \<^verbatim>\<open>%llu\<close> both first skip white space and then expect an optional sign and at least
  one decimal digit.
\<close>

datatype directive = Lit char | Space | Conv_d | Conv_llu

text \<open>A converted number: whether a minus sign was read, and the value of the digits.\<close>

type_synonym scanned = "bool \<times> int"

fun scan_digits :: "int \<Rightarrow> string \<Rightarrow> int \<times> string" where
  "scan_digits acc [] = (acc, [])"
| "scan_digits acc (c # cs) =
     (if isdigit c then scan_digits (10 * acc + digit_val c) cs else (acc, c # cs))"

definition scan_unsigned :: "string \<Rightarrow> (int \<times> string) option" where
  "scan_unsigned s =
     (case s of [] \<Rightarrow> None
      | c # cs \<Rightarrow> if isdigit c then Some (scan_digits 0 s) else None)"

definition scan_number :: "string \<Rightarrow> (scanned \<times> string) option" where
  "scan_number s =
     (case s of [] \<Rightarrow> None
      | c # cs \<Rightarrow>
          if c = CHR ''-'' then map_option (\<lambda>(v, r). ((True, v), r)) (scan_unsigned cs)
          else if c = CHR ''+'' then map_option (\<lambda>(v, r). ((False, v), r)) (scan_unsigned cs)
          else map_option (\<lambda>(v, r). ((False, v), r)) (scan_unsigned s))"

text \<open>
  The scanner returns the conversions made, in order, and whether it stopped on an input
  failure (the line ended where a directive needed a character). Each conversion is
  stored through its pointer argument as soon as it is made, so the conversions made
  before a failure stay stored.
\<close>

fun scan_format :: "directive list \<Rightarrow> string \<Rightarrow> scanned list \<times> bool" where
  "scan_format [] s = ([], False)"
| "scan_format (Lit c # fmt) s =
     (case s of [] \<Rightarrow> ([], True)
      | x # xs \<Rightarrow> if x = c then scan_format fmt xs else ([], False))"
| "scan_format (Space # fmt) s = scan_format fmt (dropWhile isspace s)"
| "scan_format (d # fmt) s =
     (let s' = dropWhile isspace s
      in if s' = [] then ([], True)
         else (case scan_number s' of
                 None \<Rightarrow> ([], False)
               | Some (v, rest) \<Rightarrow>
                   (case scan_format fmt rest of (vs, eof) \<Rightarrow> (v # vs, eof))))"

definition sscanf_result :: "scanned list \<times> bool \<Rightarrow> int" where
  \<comment> \<open>the return value: EOF (-1) on an input failure before the first conversion,
      otherwise the number of conversions stored\<close>
  "sscanf_result r = (if fst r = [] \<and> snd r then - 1 else int (length (fst r)))"

definition fmt_cpu_id :: "directive list" where
  \<comment> \<open>\<^verbatim>\<open>"cpu%d"\<close>\<close>
  "fmt_cpu_id = [Lit CHR ''c'', Lit CHR ''p'', Lit CHR ''u'', Conv_d]"

definition fmt_cpu_stats :: "directive list" where
  \<comment> \<open>\<^verbatim>\<open>"cpu%d %llu %llu %llu %llu %llu %llu %llu %llu %llu %llu"\<close>\<close>
  "fmt_cpu_stats = fmt_cpu_id @ concat (replicate 10 [Space, Conv_llu])"

subsection \<open>Topology discovery: \<^verbatim>\<open>count_cpus\<close>\<close>

text \<open>
  The loop of \<^verbatim>\<open>count_cpus\<close>, over the lines \<^verbatim>\<open>fgets\<close> returns, with the running count.
  The counter is a C \<^verbatim>\<open>int\<close>; it is modelled unbounded (it could only overflow on a file
  of more than \<open>2^31\<close> matching lines). \<open>file\<close> is the content of the counter file as
  this pass reads it.
\<close>

fun count_cpus_loop :: "string list \<Rightarrow> int \<Rightarrow> int" where
  "count_cpus_loop [] cpu_count = cpu_count"
| "count_cpus_loop (line # rest) cpu_count =
     (if sscanf_result (scan_format fmt_cpu_id (c_string line)) = 1
      then count_cpus_loop rest (cpu_count + 1)
      else count_cpus_loop rest cpu_count)"

definition count_cpus :: "string \<Rightarrow> int" where
  "count_cpus file = count_cpus_loop (file_lines file) 0"

subsection \<open>Double arithmetic\<close>

text \<open>
  A \<^verbatim>\<open>double\<close> is an IEEE 754 binary64 value: a finite value (a rational that is a
  multiple of a power of two with a significand of at most 53 bits), an infinity or a
  NaN. Every operation computes the exact result and rounds it to the nearest
  representable value, ties to the even significand; results below the normal range
  are rounded on the subnormal grid \<open>2^-1074\<close>, results of magnitude \<open>2^1024\<close> or more
  become infinite. The two zeros are not distinguished: a negative zero cannot arise
  in this program, whose zeros come from converting integers, from the literal
  \<^verbatim>\<open>0.0\<close> and from differences of equal values.
\<close>

datatype double = Fin rat | PInf | NInf | NaN

function bit_length :: "int \<Rightarrow> int" where
  \<comment> \<open>the number of binary digits of a positive integer\<close>
  "bit_length n = (if n \<le> 0 then 0 else 1 + bit_length (n div 2))"
  by pat_completeness auto
termination
  by (relation "measure nat") auto

declare bit_length.simps [simp del]

definition ilog2 :: "rat \<Rightarrow> int" where
  \<comment> \<open>for positive \<open>x\<close>, the exponent \<open>k\<close> with \<open>2^k \<le> x < 2^(k+1)\<close>\<close>
  "ilog2 x = (let (p, q) = quotient_of x;
                  k = bit_length p - bit_length q
              in if 2 powi k \<le> x then k else k - 1)"

definition round_even :: "rat \<Rightarrow> int" where
  "round_even x = (let f = \<lfloor>x\<rfloor>; d = x - of_int f
                   in if d < 1 / 2 then f
                      else if 1 / 2 < d then f + 1
                      else if even f then f else f + 1)"

definition round_double :: "rat \<Rightarrow> double" where
  "round_double x =
     (if x = 0 then Fin 0
      else let a = \<bar>x\<bar>;
               e = max (ilog2 a - 52) (- 1074);
               n = round_even (a / 2 powi e)
           in if 1024 < e + bit_length n then (if 0 < x then PInf else NInf)
              else Fin (if 0 < x then of_int n * 2 powi e else - (of_int n * 2 powi e)))"

definition dsgn :: "double \<Rightarrow> int" where
  "dsgn x = (case x of Fin a \<Rightarrow> (if a < 0 then - 1 else if a = 0 then 0 else 1)
             | PInf \<Rightarrow> 1 | NInf \<Rightarrow> - 1 | NaN \<Rightarrow> 0)"

definition dinf :: "int \<Rightarrow> double" where
  "dinf s = (if s = 0 then NaN else if 0 < s then PInf else NInf)"

fun dadd :: "double \<Rightarrow> double \<Rightarrow> double" where
  "dadd (Fin a) (Fin b) = round_double (a + b)"
| "dadd NaN y = NaN"
| "dadd x NaN = NaN"
| "dadd (Fin a) y = y"
| "dadd x (Fin b) = x"
| "dadd x y = (if x = y then x else NaN)"

fun dsub :: "double \<Rightarrow> double \<Rightarrow> double" where
  "dsub (Fin a) (Fin b) = round_double (a - b)"
| "dsub NaN y = NaN"
| "dsub x NaN = NaN"
| "dsub (Fin a) y = dinf (- dsgn y)"
| "dsub x (Fin b) = x"
| "dsub x y = (if x = y then NaN else x)"

fun dmul :: "double \<Rightarrow> double \<Rightarrow> double" where
  "dmul (Fin a) (Fin b) = round_double (a * b)"
| "dmul NaN y = NaN"
| "dmul x NaN = NaN"
| "dmul x y = dinf (dsgn x * dsgn y)"

fun ddiv :: "double \<Rightarrow> double \<Rightarrow> double" where
  "ddiv (Fin a) (Fin b) = (if b = 0 then dinf (dsgn (Fin a)) else round_double (a / b))"
| "ddiv NaN y = NaN"
| "ddiv x NaN = NaN"
| "ddiv (Fin a) y = Fin 0"
| "ddiv x (Fin b) = dinf (dsgn x * (if b < 0 then - 1 else 1))"
| "ddiv x y = NaN"

definition is_finite :: "double \<Rightarrow> bool" where
  "is_finite x = (case x of Fin a \<Rightarrow> True | _ \<Rightarrow> False)"

definition u64_to_double :: "64 word \<Rightarrow> double" where
  \<comment> \<open>the cast \<^verbatim>\<open>(double)\<close> of an \<^verbatim>\<open>unsigned long long\<close>\<close>
  "u64_to_double w = round_double (of_int (uint w))"

definition int_to_double :: "int \<Rightarrow> double" where
  \<comment> \<open>the cast \<^verbatim>\<open>(double)\<close> of a signed integer\<close>
  "int_to_double i = round_double (of_int i)"

subsection \<open>\<^verbatim>\<open>printf\<close> for \<^verbatim>\<open>%d\<close>, \<^verbatim>\<open>%f\<close> and \<^verbatim>\<open>%.2f\<close>\<close>

definition digit_char :: "int \<Rightarrow> char" where
  "digit_char d = char_of (48 + d)"

function dec :: "int \<Rightarrow> string" where
  \<comment> \<open>the decimal digits of a non-negative integer\<close>
  "dec n = (if n < 10 then [digit_char n] else dec (n div 10) @ [digit_char (n mod 10)])"
  by pat_completeness auto
termination
  by (relation "measure nat") auto

declare dec.simps [simp del]

definition printf_d :: "int \<Rightarrow> string" where
  "printf_d i = (if i < 0 then CHR ''-'' # dec (- i) else dec i)"

text \<open>
  \<^verbatim>\<open>%.pf\<close>: the value rounded to \<open>p\<close> decimals (the exact binary value, ties to even),
  a minus sign for a negative value, at least one digit before the point.
  \<^verbatim>\<open>%f\<close> is \<^verbatim>\<open>%.6f\<close>.
\<close>

definition printf_fixed :: "nat \<Rightarrow> double \<Rightarrow> string" where
  "printf_fixed p x =
     (case x of
        Fin a \<Rightarrow>
          (let n = round_even (\<bar>a\<bar> * 10 ^ p);
               frac = dec (n mod 10 ^ p)
           in (if a < 0 then ''-'' else []) @ dec (n div 10 ^ p) @
              (if p = 0 then [] else ''.'' @ replicate (p - length frac) CHR ''0'' @ frac))
      | PInf \<Rightarrow> ''inf''
      | NInf \<Rightarrow> ''-inf''
      | NaN \<Rightarrow> ''nan'')"

subsection \<open>Counter snapshots and the load of one core\<close>

record cpu_stats_t =
  user :: "64 word"
  nice :: "64 word"
  system :: "64 word"
  idle :: "64 word"
  iowait :: "64 word"
  irq :: "64 word"
  softirq :: "64 word"
  steal :: "64 word"
  guest :: "64 word"
  guest_nice :: "64 word"

record cpu_data_t =
  current :: cpu_stats_t
  previous :: cpu_stats_t

definition get_total_time :: "cpu_stats_t \<Rightarrow> 64 word" where
  "get_total_time stats =
     user stats + nice stats + system stats + idle stats +
     iowait stats + irq stats + softirq stats + steal stats +
     guest stats + guest_nice stats"

definition get_idle_time :: "cpu_stats_t \<Rightarrow> 64 word" where
  "get_idle_time stats = idle stats + iowait stats"

definition calculate_cpu_load :: "cpu_stats_t \<Rightarrow> cpu_stats_t \<Rightarrow> double" where
  "calculate_cpu_load cur prev =
     (let total_current = get_total_time cur;
          total_previous = get_total_time prev;
          idle_current = get_idle_time cur;
          idle_previous = get_idle_time prev;
          total_diff = total_current - total_previous;
          idle_diff = idle_current - idle_previous
      in if total_diff = 0 then Fin 0
         else dmul (Fin 100)
                (dsub (Fin 1) (ddiv (u64_to_double idle_diff) (u64_to_double total_diff))))"

subsection \<open>Reading the counters: \<^verbatim>\<open>parse_cpu_stats\<close>\<close>

text \<open>
  The core-state array is addressed through a pointer and an \<^verbatim>\<open>int\<close> index; it is
  modelled as the memory around that pointer, one \<^verbatim>\<open>cpu_data_t\<close> per index. The array
  proper is the indices \<open>0 .. num_cpus - 1\<close>; what lies at the other indices is memory
  the program does not own.
\<close>

type_synonym cpu_array = "int \<Rightarrow> cpu_data_t"

definition ull_of :: "scanned \<Rightarrow> 64 word" where
  \<comment> \<open>the value \<^verbatim>\<open>%llu\<close> stores, as \<^verbatim>\<open>strtoull\<close> computes it: digits beyond the range give
      \<^verbatim>\<open>ULLONG_MAX\<close>, a minus sign negates modulo \<open>2^64\<close>\<close>
  "ull_of v = (if 2 ^ 64 \<le> snd v then - 1
               else if fst v then - word_of_int (snd v) else word_of_int (snd v))"

definition stat_fields :: "(64 word \<Rightarrow> cpu_stats_t \<Rightarrow> cpu_stats_t) list" where
  \<comment> \<open>the ten pointer arguments after \<^verbatim>\<open>&cpu_id\<close>, in order\<close>
  "stat_fields =
     [\<lambda>v s. s\<lparr>user := v\<rparr>, \<lambda>v s. s\<lparr>nice := v\<rparr>, \<lambda>v s. s\<lparr>system := v\<rparr>,
      \<lambda>v s. s\<lparr>idle := v\<rparr>, \<lambda>v s. s\<lparr>iowait := v\<rparr>, \<lambda>v s. s\<lparr>irq := v\<rparr>,
      \<lambda>v s. s\<lparr>softirq := v\<rparr>, \<lambda>v s. s\<lparr>steal := v\<rparr>, \<lambda>v s. s\<lparr>guest := v\<rparr>,
      \<lambda>v s. s\<lparr>guest_nice := v\<rparr>]"

definition store_stats :: "scanned list \<Rightarrow> cpu_stats_t \<Rightarrow> cpu_stats_t" where
  \<comment> \<open>the first conversion goes to the local \<^verbatim>\<open>cpu_id\<close>, which is never read; the
      following ones go to the fields of \<^verbatim>\<open>*stats\<close>\<close>
  "store_stats vs stats =
     foldl (\<lambda>s (put, v). put (ull_of v) s) stats (zip stat_fields (drop 1 vs))"

text \<open>
  The loop of \<^verbatim>\<open>parse_cpu_stats\<close>: \<^verbatim>\<open>fgets\<close> is called first, then the count is tested;
  \<^verbatim>\<open>sscanf\<close> stores through \<^verbatim>\<open>stats = &cpu_data[cpu_count].current\<close>, and the count
  advances only when all eleven conversions were made.
\<close>

fun parse_cpu_stats_loop ::
  "string list \<Rightarrow> cpu_array \<Rightarrow> int \<Rightarrow> int \<Rightarrow> cpu_array \<times> int" where
  "parse_cpu_stats_loop [] cpu_data num_cpus cpu_count = (cpu_data, cpu_count)"
| "parse_cpu_stats_loop (line # rest) cpu_data num_cpus cpu_count =
     (if \<not> cpu_count < num_cpus then (cpu_data, cpu_count)
      else
        (let r = scan_format fmt_cpu_stats (c_string line);
             slot = cpu_data cpu_count;
             cpu_data' =
               cpu_data(cpu_count := slot\<lparr>current := store_stats (fst r) (current slot)\<rparr>)
         in parse_cpu_stats_loop rest cpu_data' num_cpus
              (if sscanf_result r = 11 then cpu_count + 1 else cpu_count)))"

declare parse_cpu_stats_loop.simps [simp del]

text \<open>
  \<^verbatim>\<open>parse_cpu_stats\<close> rewinds the file and reads it from the start; \<open>file\<close> is the
  content the kernel presents to this pass. It returns the updated memory and the
  number of lines that gave all eleven conversions.
\<close>

definition parse_cpu_stats :: "string \<Rightarrow> cpu_array \<Rightarrow> int \<Rightarrow> cpu_array \<times> int" where
  "parse_cpu_stats file cpu_data num_cpus =
     parse_cpu_stats_loop (file_lines file) cpu_data num_cpus 0"

subsection \<open>The program: options, the signal handler, the polling loop\<close>

text \<open>
  The three counting loops of \<^verbatim>\<open>main\<close> have the shape
  \<^verbatim>\<open>for (int i = 0; i < num_cpus; i++) body\<close>.
\<close>

function for_loop :: "int \<Rightarrow> int \<Rightarrow> (int \<Rightarrow> 'a \<Rightarrow> 'a) \<Rightarrow> 'a \<Rightarrow> 'a" where
  "for_loop i n body s = (if i < n then for_loop (i + 1) n body (body i s) else s)"
  by pat_completeness auto
termination
  by (relation "measure (\<lambda>(i, n, body, s). nat (n - i))") auto

declare for_loop.simps [simp del]

record options =
  show_help :: bool
  should_write_marker :: bool
  interval :: "32 word"

definition atoi :: "string \<Rightarrow> int" where
  \<comment> \<open>white space, an optional sign, digits; 0 when there is no number. C leaves a
      value out of the range of \<^verbatim>\<open>int\<close> undefined; the C library computes
      \<^verbatim>\<open>(int) strtol(s, NULL, 10)\<close>: the value is clamped to the range of a 64-bit \<^verbatim>\<open>long\<close>
      and its low 32 bits are kept.\<close>
  "atoi s = (case scan_number (dropWhile isspace s) of
               None \<Rightarrow> 0
             | Some ((neg, v), rest) \<Rightarrow>
                 (let l = (if neg then max (- (2 ^ 63)) (- v) else min (2 ^ 63 - 1) v)
                  in (l + 2 ^ 31) mod 2 ^ 32 - 2 ^ 31))"

text \<open>
  The option loop, over the successive results of \<^verbatim>\<open>getopt(argc, argv, "hmt:")\<close> before
  it returns -1: the option character and, for \<^verbatim>\<open>t\<close>, its argument \<^verbatim>\<open>optarg\<close>.
\<close>

fun parse_options :: "(char \<times> string) list \<Rightarrow> options \<Rightarrow> options" where
  "parse_options [] opts = opts"
| "parse_options ((c, optarg) # rest) opts =
     parse_options rest
       (if c = CHR ''m'' then opts\<lparr>should_write_marker := True\<rparr>
        else if c = CHR ''t'' then opts\<lparr>interval := word_of_int (atoi optarg)\<rparr>
        else opts\<lparr>show_help := True\<rparr>)"

definition default_options :: options where
  \<comment> \<open>the initial values of \<^verbatim>\<open>show_help\<close>, \<^verbatim>\<open>should_write_marker\<close> and \<^verbatim>\<open>interval\<close>\<close>
  "default_options = \<lparr>show_help = False, should_write_marker = False, interval = 1000000\<rparr>"

record timespec =
  tv_sec :: int
  tv_nsec :: int

definition time_float :: "timespec \<Rightarrow> double" where
  \<comment> \<open>\<^verbatim>\<open>time_float = (double)tv_sec; time_float += ((double)tv_nsec) / 1000000000.0;\<close>\<close>
  "time_float current_time =
     dadd (int_to_double (tv_sec current_time))
          (ddiv (int_to_double (tv_nsec current_time)) (Fin 1000000000))"

text \<open>
  The variables the loop works on: the core-state array, the flag \<^verbatim>\<open>first_reading\<close>,
  the global flag \<^verbatim>\<open>done\<close>, what has been written to standard output, and how often
  the trace marker was written.
\<close>

record loop_state =
  cpu_data :: cpu_array
  first_reading :: bool
  done_flag :: bool
  out :: string
  marker_writes :: nat

text \<open>
  What one iteration of the loop gets from outside: the time \<^verbatim>\<open>clock_gettime\<close> stores,
  the content of the counter file as this iteration reads it, and, when the termination
  signal arrives during this iteration, the point of the iteration at which the handler
  runs. The points are: 0 before the clock is read, 1 before the counters are read,
  2 before the timestamp is printed, 3 before the first load is printed, \<open>4 + i\<close> after
  core \<open>i\<close> is done, \<open>4 + num_cpus\<close> after the end of the row is printed and flushed, and
  everything beyond while the process sleeps.
\<close>

record tick =
  clock :: timespec
  stat :: string
  sigterm :: "nat option"

definition term_handler :: "loop_state \<Rightarrow> loop_state" where
  \<comment> \<open>the handler \<^verbatim>\<open>term\<close>: \<^verbatim>\<open>done = 1;\<close>\<close>
  "term_handler s = s\<lparr>done_flag := True\<rparr>"

definition deliver :: "nat option \<Rightarrow> nat \<Rightarrow> loop_state \<Rightarrow> loop_state" where
  "deliver sg p s = (if sg = Some p then term_handler s else s)"

definition deliver_from :: "nat option \<Rightarrow> nat \<Rightarrow> loop_state \<Rightarrow> loop_state" where
  "deliver_from sg p s =
     (case sg of None \<Rightarrow> s | Some q \<Rightarrow> if p \<le> q then term_handler s else s)"

definition core_step :: "nat option \<Rightarrow> int \<Rightarrow> loop_state \<Rightarrow> loop_state" where
  \<comment> \<open>the body of the loop over the cores\<close>
  "core_step sg i s =
     (let load = (if \<not> first_reading s
                  then calculate_cpu_load (current (cpu_data s i)) (previous (cpu_data s i))
                  else Fin 0);
          s1 = s\<lparr>out := out s @ '','' @ printf_fixed 2 load\<rparr>;
          s2 = s1\<lparr>cpu_data :=
                  (cpu_data s1)(i := (cpu_data s1 i)\<lparr>previous := current (cpu_data s1 i)\<rparr>)\<rparr>
      in deliver sg (4 + nat i) s2)"

definition iteration :: "bool \<Rightarrow> int \<Rightarrow> tick \<Rightarrow> loop_state \<Rightarrow> loop_state" where
  \<comment> \<open>the body of \<^verbatim>\<open>while (!done)\<close>\<close>
  "iteration marker num_cpus t s =
     (let sg = sigterm t;
          s1 = deliver sg 0 s;
          current_time = clock t;
          s2 = (if marker \<and> first_reading s1
                then s1\<lparr>marker_writes := marker_writes s1 + 1\<rparr> else s1);
          s3 = deliver sg 1 s2;
          s4 = s3\<lparr>cpu_data := fst (parse_cpu_stats (stat t) (cpu_data s3) num_cpus)\<rparr>;
          s5 = deliver sg 2 s4;
          s6 = s5\<lparr>out := out s5 @ printf_fixed 6 (time_float current_time)\<rparr>;
          s7 = deliver sg 3 s6;
          s8 = for_loop 0 num_cpus (core_step sg) s7;
          s9 = s8\<lparr>out := out s8 @ [newline]\<rparr>;
          s10 = deliver sg (4 + nat num_cpus) s9;
          s11 = s10\<lparr>first_reading := False\<rparr>
      in deliver_from sg (5 + nat num_cpus) s11)"

text \<open>
  The loop runs as long as the environment is described: when the ticks are used up and
  the flag is still clear, the process is still running.
\<close>

fun run_loop :: "bool \<Rightarrow> int \<Rightarrow> tick list \<Rightarrow> loop_state \<Rightarrow> loop_state" where
  "run_loop marker num_cpus [] s = s"
| "run_loop marker num_cpus (t # ts) s =
     (if done_flag s then s else run_loop marker num_cpus ts (iteration marker num_cpus t s))"

text \<open>
  The world \<^verbatim>\<open>main\<close> runs in: the results of \<^verbatim>\<open>getopt\<close>, whether \<^verbatim>\<open>fopen\<close> and
  \<^verbatim>\<open>calloc\<close> succeed, the content of the counter file at the discovery pass and at the
  first reading, whether the signal arrives between the installation of the handler and
  the first test of the flag, and the ticks. (A signal before the handler is installed
  ends the process by its default action; such runs are not described.)
\<close>

record world =
  getopt_results :: "(char \<times> string) list"
  fopen_ok :: bool
  discovery :: string
  calloc_ok :: bool
  initial :: string
  sigterm_before_loop :: bool
  ticks :: "tick list"

text \<open>
  What is observed of a run: standard output, the exit status (\<open>None\<close> while the process
  is still running), whether the counter file was closed and the array freed, and the
  number of trace markers written.
\<close>

record outcome =
  stdout :: string
  exit_status :: "int option"
  stat_file_closed :: bool
  cpu_data_freed :: bool
  trace_markers :: nat

definition zero_stats :: cpu_stats_t where
  "zero_stats = \<lparr>user = 0, nice = 0, system = 0, idle = 0, iowait = 0, irq = 0,
                  softirq = 0, steal = 0, guest = 0, guest_nice = 0\<rparr>"

definition calloc_data :: cpu_array where
  \<comment> \<open>the zeroed array \<^verbatim>\<open>calloc\<close> returns\<close>
  "calloc_data = (\<lambda>i. \<lparr>current = zero_stats, previous = zero_stats\<rparr>)"

definition exited :: "int \<Rightarrow> bool \<Rightarrow> bool \<Rightarrow> string \<Rightarrow> nat \<Rightarrow> outcome" where
  "exited code fclosed freed text markers =
     \<lparr>stdout = text, exit_status = Some code, stat_file_closed = fclosed,
      cpu_data_freed = freed, trace_markers = markers\<rparr>"

text \<open>
  The state in which \<^verbatim>\<open>main\<close> enters the loop: the array has been read once and
  \<^verbatim>\<open>previous\<close> copied from \<^verbatim>\<open>current\<close> for every core, the header has been printed, and
  the handler is installed.
\<close>

definition initial_state :: "world \<Rightarrow> int \<Rightarrow> loop_state" where
  "initial_state w num_cpus =
     (let cpu_data1 = fst (parse_cpu_stats (initial w) calloc_data num_cpus);
          header =
            for_loop 0 num_cpus (\<lambda>i text. text @ '',cpu'' @ printf_d i @ ''_load'') ''time''
            @ [newline];
          cpu_data2 =
            for_loop 0 num_cpus (\<lambda>i a. a(i := (a i)\<lparr>previous := current (a i)\<rparr>)) cpu_data1
      in \<lparr>cpu_data = cpu_data2, first_reading = True, done_flag = sigterm_before_loop w,
          out = header, marker_writes = 0\<rparr>)"

definition main :: "world \<Rightarrow> outcome" where
  "main w =
     (let opts = parse_options (getopt_results w) default_options
      in if show_help opts then exited 1 False False [] 0
         else if \<not> fopen_ok w then exited 2 False False [] 0
         else
           (let num_cpus = count_cpus (discovery w)
            in if num_cpus = 0 then exited 3 True False [] 0
               else if \<not> calloc_ok w then exited 4 True False [] 0
               else
                 (let s = run_loop (should_write_marker opts) num_cpus (ticks w)
                            (initial_state w num_cpus)
                  in if done_flag s then exited 0 True True (out s) (marker_writes s)
                     else \<lparr>stdout = out s, exit_status = None, stat_file_closed = False,
                           cpu_data_freed = False, trace_markers = marker_writes s\<rparr>)))"

subsection \<open>Vocabulary for the properties\<close>

text \<open>
  One round of the loop of \<^verbatim>\<open>parse_cpu_stats\<close>: what \<^verbatim>\<open>sscanf\<close> stores into slot
  \<open>c\<close>, and the count afterwards. \<open>conversions\<close> is the number of conversions
  \<^verbatim>\<open>sscanf\<close> makes on a line (the first goes to \<^verbatim>\<open>cpu_id\<close>, the others to the counters).
  A file settles when every line that stores some counters without completing (between 2
  and 10 conversions) is followed, later in the file, by a line with all eleven.
\<close>

definition store_line :: "string \<Rightarrow> cpu_array \<Rightarrow> int \<Rightarrow> cpu_array" where
  "store_line line a c =
     a(c := (a c)\<lparr>current := store_stats (fst (scan_format fmt_cpu_stats (c_string line)))
                                (current (a c))\<rparr>)"

definition next_count :: "string \<Rightarrow> int \<Rightarrow> int" where
  "next_count line c =
     (if sscanf_result (scan_format fmt_cpu_stats (c_string line)) = 11 then c + 1 else c)"

definition conversions :: "string \<Rightarrow> nat" where
  "conversions line = length (fst (scan_format fmt_cpu_stats (c_string line)))"

fun settles :: "string list \<Rightarrow> bool" where
  "settles [] = True"
| "settles (line # rest) =
     ((conversions line = 11 \<or> conversions line \<le> 1
       \<or> list_ex (\<lambda>l. conversions l = 11) rest)
      \<and> settles rest)"

text \<open>
  The lines of the output, without their newline: the header for \<open>n\<close> cores, and a data
  row for a timestamp and a list of loads. \<open>core_loads\<close> is the list of loads of one
  iteration, in the order of the core index: 0.0 on the first reading, and otherwise
  what \<^verbatim>\<open>calculate_cpu_load\<close> gives on the two snapshots of each core.
\<close>

definition header_line :: "int \<Rightarrow> string" where
  "header_line n = ''time'' @ concat (map (\<lambda>i. '',cpu'' @ printf_d i @ ''_load'') [0..n - 1])"

definition row_line :: "timespec \<Rightarrow> double list \<Rightarrow> string" where
  "row_line ts loads =
     printf_fixed 6 (time_float ts) @ concat (map (\<lambda>l. '','' @ printf_fixed 2 l) loads)"

definition core_load :: "bool \<Rightarrow> cpu_array \<Rightarrow> int \<Rightarrow> double" where
  "core_load first a i =
     (if \<not> first then calculate_cpu_load (current (a i)) (previous (a i)) else Fin 0)"

definition core_loads :: "bool \<Rightarrow> cpu_array \<Rightarrow> int \<Rightarrow> double list" where
  "core_loads first a n = map (core_load first a) [0..n - 1]"

text \<open>Splitting a text at a separator: the fields of a CSV line, the lines of a text.\<close>

fun split_at :: "char \<Rightarrow> string \<Rightarrow> string list" where
  "split_at c [] = [[]]"
| "split_at c (x # xs) =
     (if x = c then [] # split_at c xs
      else (x # hd (split_at c xs)) # tl (split_at c xs))"

text \<open>
  The counters of a snapshot as unbounded integers: the sum of all ten, and the sum of
  \<^verbatim>\<open>idle\<close> and \<^verbatim>\<open>iowait\<close>.
\<close>

definition total_ticks :: "cpu_stats_t \<Rightarrow> int" where
  "total_ticks s =
     uint (user s) + uint (nice s) + uint (system s) + uint (idle s) + uint (iowait s) +
     uint (irq s) + uint (softirq s) + uint (steal s) + uint (guest s) + uint (guest_nice s)"

definition idle_ticks :: "cpu_stats_t \<Rightarrow> int" where
  "idle_ticks s = uint (idle s) + uint (iowait s)"

text \<open>A plain character is none of the comma, the newline and the letter \<open>t\<close>.\<close>

definition plain :: "char \<Rightarrow> bool" where
  "plain c = (c \<noteq> CHR '','' \<and> c \<noteq> newline \<and> c \<noteq> CHR ''t'')"

text \<open>
  The options \<^verbatim>\<open>main\<close> ends up with, and the runs that get past the start-up checks:
  no help requested, the counter file opened, at least one core counted, the array
  allocated. \<open>signalled\<close> says that the termination signal arrives in the run.
\<close>

definition options_of :: "world \<Rightarrow> options" where
  "options_of w = parse_options (getopt_results w) default_options"

definition starts :: "world \<Rightarrow> bool" where
  "starts w =
     (\<not> show_help (options_of w) \<and> fopen_ok w \<and> count_cpus (discovery w) \<noteq> 0 \<and> calloc_ok w)"

definition signalled :: "world \<Rightarrow> bool" where
  "signalled w = (sigterm_before_loop w \<or> list_ex (\<lambda>t. sigterm t \<noteq> None) (ticks w))"

text \<open>
  The data rows a run of the loop prints, one for each iteration it executes.
\<close>

fun run_rows :: "bool \<Rightarrow> int \<Rightarrow> tick list \<Rightarrow> loop_state \<Rightarrow> string list" where
  "run_rows marker n [] s = []"
| "run_rows marker n (t # ts) s =
     (if done_flag s then []
      else row_line (clock t)
             (core_loads (first_reading s) (fst (parse_cpu_stats (stat t) (cpu_data s) n)) n)
           # run_rows marker n ts (iteration marker n t s))"

text \<open>The state in which a run that got past the start-up checks leaves the loop.\<close>

definition final_state :: "world \<Rightarrow> loop_state" where
  "final_state w =
     run_loop (should_write_marker (options_of w)) (count_cpus (discovery w)) (ticks w)
       (initial_state w (count_cpus (discovery w)))"


subsection \<open>The program without the first-reading flag\<close>

text \<open>
  The specification compares \<^verbatim>\<open>main\<close> with a program that has no test of
  \<^verbatim>\<open>first_reading\<close> in the loop over the cores and calls \<^verbatim>\<open>calculate_cpu_load\<close> in every
  iteration, the first included. The definitions below follow that description, not the
  source: they are the definitions of \<open>core_step\<close>, \<open>iteration\<close>, \<open>run_loop\<close> and \<open>main\<close>
  with that one test removed.
\<close>

definition core_step_unguarded :: "nat option \<Rightarrow> int \<Rightarrow> loop_state \<Rightarrow> loop_state" where
  "core_step_unguarded sg i s =
     (let load = calculate_cpu_load (current (cpu_data s i)) (previous (cpu_data s i));
          s1 = s\<lparr>out := out s @ '','' @ printf_fixed 2 load\<rparr>;
          s2 = s1\<lparr>cpu_data :=
                  (cpu_data s1)(i := (cpu_data s1 i)\<lparr>previous := current (cpu_data s1 i)\<rparr>)\<rparr>
      in deliver sg (4 + nat i) s2)"

definition iteration_unguarded :: "bool \<Rightarrow> int \<Rightarrow> tick \<Rightarrow> loop_state \<Rightarrow> loop_state" where
  "iteration_unguarded marker num_cpus t s =
     (let sg = sigterm t;
          s1 = deliver sg 0 s;
          current_time = clock t;
          s2 = (if marker \<and> first_reading s1
                then s1\<lparr>marker_writes := marker_writes s1 + 1\<rparr> else s1);
          s3 = deliver sg 1 s2;
          s4 = s3\<lparr>cpu_data := fst (parse_cpu_stats (stat t) (cpu_data s3) num_cpus)\<rparr>;
          s5 = deliver sg 2 s4;
          s6 = s5\<lparr>out := out s5 @ printf_fixed 6 (time_float current_time)\<rparr>;
          s7 = deliver sg 3 s6;
          s8 = for_loop 0 num_cpus (core_step_unguarded sg) s7;
          s9 = s8\<lparr>out := out s8 @ [newline]\<rparr>;
          s10 = deliver sg (4 + nat num_cpus) s9;
          s11 = s10\<lparr>first_reading := False\<rparr>
      in deliver_from sg (5 + nat num_cpus) s11)"

fun run_loop_unguarded :: "bool \<Rightarrow> int \<Rightarrow> tick list \<Rightarrow> loop_state \<Rightarrow> loop_state" where
  "run_loop_unguarded marker num_cpus [] s = s"
| "run_loop_unguarded marker num_cpus (t # ts) s =
     (if done_flag s then s
      else run_loop_unguarded marker num_cpus ts (iteration_unguarded marker num_cpus t s))"

definition main_unguarded :: "world \<Rightarrow> outcome" where
  "main_unguarded w =
     (let opts = parse_options (getopt_results w) default_options
      in if show_help opts then exited 1 False False [] 0
         else if \<not> fopen_ok w then exited 2 False False [] 0
         else
           (let num_cpus = count_cpus (discovery w)
            in if num_cpus = 0 then exited 3 True False [] 0
               else if \<not> calloc_ok w then exited 4 True False [] 0
               else
                 (let s = run_loop_unguarded (should_write_marker opts) num_cpus (ticks w)
                            (initial_state w num_cpus)
                  in if done_flag s then exited 0 True True (out s) (marker_writes s)
                     else \<lparr>stdout = out s, exit_status = None, stat_file_closed = False,
                           cpu_data_freed = False, trace_markers = marker_writes s\<rparr>)))"

text \<open>
  The array as the first iteration reads it, and the condition that in it the total of
  every core is the total that was seeded: the total-time delta of the first iteration
  is zero for every core.
\<close>

definition first_reading_array :: "world \<Rightarrow> tick \<Rightarrow> cpu_array" where
  "first_reading_array w t =
     fst (parse_cpu_stats (stat t) (cpu_data (initial_state w (count_cpus (discovery w))))
            (count_cpus (discovery w)))"

definition first_delta :: "world \<Rightarrow> tick \<Rightarrow> int \<Rightarrow> 64 word" where
  "first_delta w t i =
     get_total_time (current (first_reading_array w t i))
     - get_total_time (previous (first_reading_array w t i))"

definition first_delta_zero :: "world \<Rightarrow> bool" where
  "first_delta_zero w =
     (case ticks w of
        [] \<Rightarrow> True
      | t # ts \<Rightarrow> list_all (\<lambda>i. first_delta w t i = 0) [0..count_cpus (discovery w) - 1])"
definition keeps_or_sets :: "('a \<Rightarrow> 'a) \<Rightarrow> ('a \<Rightarrow> 'b) \<Rightarrow> bool" where
  "keeps_or_sets f obs = ((\<forall>x. obs (f x) = obs x) \<or> (\<exists>v. \<forall>x. obs (f x) = v))"

definition stat_selectors :: "(cpu_stats_t \<Rightarrow> 64 word) list" where
  "stat_selectors = [user, nice, system, idle, iowait, irq, softirq, steal, guest, guest_nice]"

definition unchanged_at_first_reading :: "world \<Rightarrow> bool" where
  "unchanged_at_first_reading w = (case ticks w of [] \<Rightarrow> True | t # ts \<Rightarrow> stat t = initial w)"

text \<open>
  The loads \<^verbatim>\<open>calculate_cpu_load\<close> gives for the array as the first iteration reads it:
  what the zero-division guard alone reports on the first iteration.
\<close>

definition first_guard_loads :: "world \<Rightarrow> double list" where
  "first_guard_loads w =
     (case ticks w of
        [] \<Rightarrow> []
      | t # ts \<Rightarrow>
          map (\<lambda>i. calculate_cpu_load (current (first_reading_array w t i))
                     (previous (first_reading_array w t i)))
            [0..count_cpus (discovery w) - 1])"
subsection \<open>Example inputs\<close>

definition example_stat :: string where
  \<comment> \<open>an aggregate line and two per-core lines, as the kernel writes them\<close>
  "example_stat =
     ''cpu  30 0 0 70 0 0 0 0 0 0\<newline>'' @
     ''cpu0 10 0 0 40 0 0 0 0 0 0\<newline>'' @
     ''cpu1 20 0 0 30 0 0 0 0 0 0\<newline>'' @
     ''intr 12345\<newline>''"

definition three_cores_stat :: string where
  \<comment> \<open>three per-core lines and no aggregate line\<close>
  "three_cores_stat =
     ''cpu0 10 0 0 40 0 0 0 0 0 0\<newline>'' @
     ''cpu1 20 0 0 30 0 0 0 0 0 0\<newline>'' @
     ''cpu2 5 5 5 5 5 5 5 5 5 5\<newline>''"

definition cut_short_stat :: string where
  \<comment> \<open>the line of the second core is cut short after its first counter\<close>
  "cut_short_stat =
     ''cpu0 10 0 0 40 0 0 0 0 0 0\<newline>'' @
     ''cpu1 25\<newline>''"

definition snapshot_before :: cpu_stats_t where
  "snapshot_before = zero_stats\<lparr>user := 100, idle := 40, iowait := 10\<rparr>"

definition snapshot_after :: cpu_stats_t where
  \<comment> \<open>100 ticks later, 20 of them idle\<close>
  "snapshot_after = zero_stats\<lparr>user := 180, idle := 55, iowait := 15\<rparr>"

definition busier_stat :: string where
  \<comment> \<open>\<open>example_stat\<close> 100 ticks later: core 0 was idle for 20 of them, core 1 for all\<close>
  "busier_stat =
     ''cpu  110 0 0 190 0 0 0 0 0 0\<newline>'' @
     ''cpu0 90 0 0 60 0 0 0 0 0 0\<newline>'' @
     ''cpu1 20 0 0 130 0 0 0 0 0 0\<newline>'' @
     ''intr 23456\<newline>''"

definition tick_at :: "int \<Rightarrow> string \<Rightarrow> nat option \<Rightarrow> tick" where
  "tick_at sec file sg =
     \<lparr>clock = \<lparr>tv_sec = sec, tv_nsec = 500000000\<rparr>, stat = file, sigterm = sg\<rparr>"

definition example_world :: world where
  \<comment> \<open>no options; the counters are read as \<open>example_stat\<close> until the second tick\<close>
  "example_world =
     \<lparr>getopt_results = [], fopen_ok = True, discovery = example_stat, calloc_ok = True,
      initial = example_stat, sigterm_before_loop = False,
      ticks = [tick_at 100 example_stat None, tick_at 101 busier_stat None,
               tick_at 102 busier_stat None]\<rparr>"

definition signalled_world :: world where
  \<comment> \<open>the signal arrives during the second iteration, while the loads are printed\<close>
  "signalled_world =
     example_world\<lparr>ticks := [tick_at 100 example_stat None, tick_at 101 busier_stat (Some 5),
                           tick_at 102 busier_stat None]\<rparr>"

definition help_world :: world where
  "help_world = example_world\<lparr>getopt_results := [(CHR ''h'', [])]\<rparr>"

definition unreadable_world :: world where
  "unreadable_world = example_world\<lparr>fopen_ok := False\<rparr>"

definition coreless_world :: world where
  "coreless_world = example_world\<lparr>discovery := ''intr 12345\<newline>''\<rparr>"

definition nomem_world :: world where
  "nomem_world = example_world\<lparr>calloc_ok := False\<rparr>"

definition restless_world :: world where
  \<comment> \<open>the counters move between the seeding and the first iteration\<close>
  "restless_world = example_world\<lparr>ticks := [tick_at 100 busier_stat None]\<rparr>"

definition dipped_before :: cpu_stats_t where
  "dipped_before = zero_stats\<lparr>user := 100, idle := 50, iowait := 10\<rparr>"

definition dipped_after :: cpu_stats_t where
  \<comment> \<open>ten ticks of user time later, with \<^verbatim>\<open>iowait\<close> one tick lower\<close>
  "dipped_after = zero_stats\<lparr>user := 110, idle := 50, iowait := 9\<rparr>"

definition nine_column_stat :: string where
  \<comment> \<open>an aggregate line and two per-core lines with nine counters each\<close>
  "nine_column_stat =
     ''cpu  30 0 0 70 0 0 0 0 0\<newline>'' @
     ''cpu0 10 0 0 40 0 0 0 0 0\<newline>'' @
     ''cpu1 20 0 0 30 0 0 0 0 0\<newline>''"

section \<open>Properties\<close>

subsection \<open>The loop of \<^verbatim>\<open>parse_cpu_stats\<close>\<close>

lemma parse_loop_Nil [simp]: "parse_cpu_stats_loop [] a n c = (a, c)"
  by (simp add: parse_cpu_stats_loop.simps)

lemma parse_loop_stop [simp]: "\<not> c < n \<Longrightarrow> parse_cpu_stats_loop ls a n c = (a, c)"
  by (cases ls) (simp_all add: parse_cpu_stats_loop.simps)

lemma parse_loop_step:
  "c < n \<Longrightarrow>
   parse_cpu_stats_loop (line # rest) a n c =
   parse_cpu_stats_loop rest (store_line line a c) n (next_count line c)"
  by (simp add: parse_cpu_stats_loop.simps Let_def store_line_def next_count_def)

lemma next_count_ge: "c \<le> next_count line c"
  by (simp add: next_count_def)

lemma store_line_other: "i \<noteq> c \<Longrightarrow> store_line line a c i = a i"
  by (simp add: store_line_def)

lemma store_line_previous: "previous (store_line line a c i) = previous (a i)"
  by (simp add: store_line_def)

lemma count_le_parse_loop:
  "c \<le> snd (parse_cpu_stats_loop ls a n c)"
proof (induction ls arbitrary: a c)
  case Nil
  then show ?case by simp
next
  case (Cons line rest)
  show ?case
  proof (cases "c < n")
    case False
    then show ?thesis by simp
  next
    case True
    have "c \<le> next_count line c" by (rule next_count_ge)
    also have "\<dots> \<le> snd (parse_cpu_stats_loop rest (store_line line a c) n (next_count line c))"
      by (rule Cons.IH)
    finally show ?thesis using True by (simp add: parse_loop_step)
  qed
qed

lemma parse_loop_upper:
  "c \<le> n \<Longrightarrow> snd (parse_cpu_stats_loop ls a n c) \<le> n"
proof (induction ls arbitrary: a c)
  case Nil
  then show ?case by simp
next
  case (Cons line rest)
  show ?case
  proof (cases "c < n")
    case False
    with Cons.prems show ?thesis by simp
  next
    case True
    then have "next_count line c \<le> n" by (simp add: next_count_def)
    then show ?thesis using True by (simp add: parse_loop_step Cons.IH)
  qed
qed

lemma parse_loop_frame:
  "i < c \<or> n \<le> i \<Longrightarrow> fst (parse_cpu_stats_loop ls a n c) i = a i"
proof (induction ls arbitrary: a c)
  case Nil
  then show ?case by simp
next
  case (Cons line rest)
  show ?case
  proof (cases "c < n")
    case False
    then show ?thesis by simp
  next
    case True
    from Cons.prems True have ne: "i \<noteq> c" by auto
    from Cons.prems have "i < next_count line c \<or> n \<le> i"
      using next_count_ge [of c line] by auto
    then have "fst (parse_cpu_stats_loop rest (store_line line a c) n (next_count line c)) i
               = store_line line a c i"
      by (rule Cons.IH)
    with ne True show ?thesis by (simp add: parse_loop_step store_line_other)
  qed
qed

lemma parse_loop_previous:
  "previous (fst (parse_cpu_stats_loop ls a n c) i) = previous (a i)"
proof (induction ls arbitrary: a c)
  case Nil
  then show ?case by simp
next
  case (Cons line rest)
  show ?case
  proof (cases "c < n")
    case False
    then show ?thesis by simp
  next
    case True
    then show ?thesis by (simp add: parse_loop_step Cons.IH store_line_previous)
  qed
qed

lemma parse_loop_beyond_count:
  "snd (parse_cpu_stats_loop ls a n c) < i \<Longrightarrow>
   fst (parse_cpu_stats_loop ls a n c) i = a i"
proof (induction ls arbitrary: a c)
  case Nil
  then show ?case by simp
next
  case (Cons line rest)
  show ?case
  proof (cases "c < n")
    case False
    then show ?thesis by simp
  next
    case True
    let ?rest = "parse_cpu_stats_loop rest (store_line line a c) n (next_count line c)"
    from True Cons.prems have lt: "snd ?rest < i" by (simp add: parse_loop_step)
    have "c \<le> next_count line c" by (rule next_count_ge)
    also have "\<dots> \<le> snd ?rest" by (rule count_le_parse_loop)
    finally have ne: "i \<noteq> c" using lt by simp
    from lt have "fst ?rest i = store_line line a c i" by (rule Cons.IH)
    with ne True show ?thesis by (simp add: parse_loop_step store_line_other)
  qed
qed

lemma store_stats_nothing: "length vs \<le> 1 \<Longrightarrow> store_stats vs s = s"
  by (simp add: store_stats_def)

lemma sscanf_result_11: "sscanf_result (scan_format fmt_cpu_stats (c_string line)) = 11
    \<longleftrightarrow> conversions line = 11"
  by (auto simp: sscanf_result_def conversions_def)

lemma parse_loop_advances:
  "list_ex (\<lambda>l. conversions l = 11) ls \<Longrightarrow> c < n \<Longrightarrow>
   c < snd (parse_cpu_stats_loop ls a n c)"
proof (induction ls arbitrary: a c)
  case Nil
  then show ?case by simp
next
  case (Cons line rest)
  let ?rest = "parse_cpu_stats_loop rest (store_line line a c) n (next_count line c)"
  show ?case
  proof (cases "conversions line = 11")
    case True
    then have "c < next_count line c" by (simp add: next_count_def sscanf_result_11)
    also have "\<dots> \<le> snd ?rest" by (rule count_le_parse_loop)
    finally show ?thesis using Cons.prems by (simp add: parse_loop_step)
  next
    case False
    then have same: "next_count line c = c" by (simp add: next_count_def sscanf_result_11)
    from False Cons.prems have "list_ex (\<lambda>l. conversions l = 11) rest" by simp
    from Cons.IH [OF this Cons.prems(2), of "store_line line a c"] same Cons.prems
    show ?thesis by (simp add: parse_loop_step)
  qed
qed

lemma parse_loop_from_count:
  "settles ls \<Longrightarrow> snd (parse_cpu_stats_loop ls a n c) \<le> i \<Longrightarrow>
   fst (parse_cpu_stats_loop ls a n c) i = a i"
proof (induction ls arbitrary: a c)
  case Nil
  then show ?case by simp
next
  case (Cons line rest)
  show ?case
  proof (cases "c < n")
    case False
    then show ?thesis by simp
  next
    case True
    let ?rest = "parse_cpu_stats_loop rest (store_line line a c) n (next_count line c)"
    from True Cons.prems have le: "snd ?rest \<le> i" by (simp add: parse_loop_step)
    have cnt: "next_count line c \<le> snd ?rest" by (rule count_le_parse_loop)
    from Cons.prems(1) le have ih: "fst ?rest i = store_line line a c i"
      by (intro Cons.IH) simp_all
    from Cons.prems(1) consider
      (whole) "conversions line = 11" |
      (nothing) "conversions line \<noteq> 11" "conversions line \<le> 1" |
      (later) "conversions line \<noteq> 11" "list_ex (\<lambda>l. conversions l = 11) rest"
      by auto
    then have "store_line line a c i = a i"
    proof cases
      case whole
      with le cnt have "i \<noteq> c" by (simp add: next_count_def sscanf_result_11)
      then show ?thesis by (rule store_line_other)
    next
      case nothing
      then show ?thesis by (simp add: store_line_def store_stats_nothing conversions_def)
    next
      case later
      then have "next_count line c = c" by (simp add: next_count_def sscanf_result_11)
      with parse_loop_advances [OF later(2) True, of "store_line line a c"] le
      have "i \<noteq> c" by simp
      then show ?thesis by (rule store_line_other)
    qed
    with ih True show ?thesis by (simp add: parse_loop_step)
  qed
qed

subsection \<open>Rounding\<close>

lemma bit_length_nonneg: "0 \<le> bit_length n"
  by (induction n rule: bit_length.induct) (subst bit_length.simps, simp)

lemma bit_length_upper: "n < 2 ^ nat (bit_length n)"
proof (induction n rule: bit_length.induct)
  case (1 n)
  show ?case
  proof (cases "n \<le> 0")
    case True
    then show ?thesis by (subst bit_length.simps) simp
  next
    case False
    with 1 have "n div 2 < 2 ^ nat (bit_length (n div 2))" by simp
    then have "n < 2 * 2 ^ nat (bit_length (n div 2))" by linarith
    also have "\<dots> = 2 ^ nat (1 + bit_length (n div 2))"
      using bit_length_nonneg [of "n div 2"] by (simp add: nat_add_distrib)
    finally show ?thesis using False by (subst bit_length.simps) simp
  qed
qed

lemma bit_length_lower: "0 < n \<Longrightarrow> 2 ^ nat (bit_length n - 1) \<le> n"
proof (induction n rule: bit_length.induct)
  case (1 n)
  then have pos: "0 < n" by simp
  have bl: "bit_length n = 1 + bit_length (n div 2)"
    using pos by (subst bit_length.simps) simp
  show ?case
  proof (cases "0 < n div 2")
    case False
    then have "n div 2 = 0" using pos by simp
    then have "bit_length (n div 2) = 0" by (subst bit_length.simps) simp
    with bl pos show ?thesis by simp
  next
    case True
    with 1 pos have "2 ^ nat (bit_length (n div 2) - 1) \<le> n div 2" by simp
    moreover have "0 < bit_length (n div 2)"
      using True by (subst bit_length.simps) (simp add: bit_length_nonneg add_pos_nonneg)
    ultimately have "2 ^ nat (bit_length (n div 2)) \<le> 2 * (n div 2)"
      by (cases "nat (bit_length (n div 2))") (auto simp: nat_diff_distrib)
    also have "\<dots> \<le> n" by simp
    finally show ?thesis using bl by simp
  qed
qed

lemma powi_nat_diff: "(2::rat) powi (int a - int b) = 2 ^ a / 2 ^ b"
  by (simp add: power_int_diff)

lemma ilog2_le:
  assumes "0 < x"
  shows "2 powi (ilog2 x) \<le> x"
proof -
  obtain p q where pq: "quotient_of x = (p, q)" by (cases "quotient_of x")
  then have q: "0 < q" and x: "x = of_int p / of_int q"
    by (auto dest: quotient_of_denom_pos quotient_of_div)
  with assms have p: "0 < p" by (simp add: zero_less_divide_iff)
  let ?k = "bit_length p - bit_length q"
  show ?thesis
  proof (cases "2 powi ?k \<le> x")
    case True
    with pq show ?thesis by (simp add: ilog2_def)
  next
    case False
    have "1 \<le> bit_length p"
      using p bit_length_nonneg [of "p div 2"] by (subst bit_length.simps) simp
    then have k1: "?k - 1 = int (nat (bit_length p - 1)) - int (nat (bit_length q))"
      using bit_length_nonneg [of q] by simp
    have "(2::rat) powi (?k - 1) = 2 ^ nat (bit_length p - 1) / 2 ^ nat (bit_length q)"
      by (simp only: k1 powi_nat_diff)
    also have "\<dots> \<le> of_int p / 2 ^ nat (bit_length q)"
    proof -
      have "(of_int (2 ^ nat (bit_length p - 1)) :: rat) \<le> of_int p"
        using bit_length_lower [OF p] by (simp only: of_int_le_iff)
      then have "(2::rat) ^ nat (bit_length p - 1) \<le> of_int p" by simp
      then show ?thesis by (rule divide_right_mono) simp
    qed
    also have "\<dots> \<le> of_int p / of_int q"
    proof -
      have "(of_int q :: rat) \<le> of_int (2 ^ nat (bit_length q))"
        using bit_length_upper [of q] by (simp only: of_int_le_iff less_imp_le)
      then have "(of_int q :: rat) \<le> 2 ^ nat (bit_length q)" by simp
      moreover have "(0::rat) < of_int q" "(0::rat) \<le> of_int p" using p q by simp_all
      ultimately show ?thesis by (intro divide_left_mono mult_pos_pos) simp_all
    qed
    finally show ?thesis using pq False x by (simp add: ilog2_def)
  qed
qed

lemma round_even_nonneg: "0 \<le> y \<Longrightarrow> 0 \<le> round_even y"
  by (auto simp: round_even_def Let_def)

lemma round_even_le_double: "0 \<le> y \<Longrightarrow> of_int (round_even y) \<le> 2 * y"
proof -
  assume y: "0 \<le> y"
  have f: "of_int \<lfloor>y\<rfloor> \<le> y" by simp
  show ?thesis
  proof (cases "y - of_int \<lfloor>y\<rfloor> < 1 / 2")
    case True
    then have "(of_int (round_even y) :: rat) = of_int \<lfloor>y\<rfloor>"
      by (simp add: round_even_def Let_def)
    with y f show ?thesis by linarith
  next
    case False
    then have "of_int (round_even y) \<le> (of_int \<lfloor>y\<rfloor> + 1 :: rat)"
      by (simp add: round_even_def Let_def)
    moreover have "0 \<le> (of_int \<lfloor>y\<rfloor> :: rat)" using y by simp
    moreover have "1 / 2 \<le> y - of_int \<lfloor>y\<rfloor>" using False by simp
    ultimately show ?thesis by linarith
  qed
qed

lemma round_even_ge_half: "1 \<le> y \<Longrightarrow> y / 2 \<le> of_int (round_even y)"
proof -
  assume y: "1 \<le> y"
  then have "1 \<le> \<lfloor>y\<rfloor>" by simp
  then have "(1::rat) \<le> of_int \<lfloor>y\<rfloor>" by linarith
  moreover have "y < of_int \<lfloor>y\<rfloor> + 1" by linarith
  ultimately have "y / 2 \<le> of_int \<lfloor>y\<rfloor>" by linarith
  also have "(of_int \<lfloor>y\<rfloor> :: rat) \<le> of_int (round_even y)"
    by (simp add: round_even_def Let_def)
  finally show ?thesis .
qed

lemma bit_length_lower_rat: "0 < n \<Longrightarrow> (2::rat) powi (bit_length n - 1) \<le> of_int n"
proof -
  assume n: "0 < n"
  then have "1 \<le> bit_length n"
    using bit_length_nonneg [of "n div 2"] by (subst bit_length.simps) simp
  then have "(2::rat) powi (bit_length n - 1) = 2 ^ nat (bit_length n - 1)"
    by (simp add: power_int_def)
  also have "\<dots> = of_int (2 ^ nat (bit_length n - 1))" by simp
  also have "\<dots> \<le> of_int n"
    using bit_length_lower [OF n] by (simp only: of_int_le_iff)
  finally show ?thesis .
qed

lemma round_double_repr:
  assumes nz: "x \<noteq> 0" and bound: "\<bar>x\<bar> \<le> 2 ^ 100"
  defines "e \<equiv> max (ilog2 \<bar>x\<bar> - 52) (- 1074)"
  defines "n \<equiv> round_even (\<bar>x\<bar> / 2 powi e)"
  shows "round_double x = Fin (if 0 < x then of_int n * 2 powi e else - (of_int n * 2 powi e))"
    and "0 \<le> n" and "of_int n * 2 powi e \<le> 2 * \<bar>x\<bar>"
proof -
  have apos: "0 < \<bar>x\<bar>" using nz by simp
  have pe: "(0::rat) < 2 powi e" by simp
  have "(2::rat) powi ilog2 \<bar>x\<bar> \<le> \<bar>x\<bar>" by (rule ilog2_le [OF apos])
  also have "\<dots> \<le> 2 powi 100" using bound by simp
  finally have "ilog2 \<bar>x\<bar> \<le> 100"
    by (rule power_int_le_imp_le_exp [rotated]) simp_all
  then have e_le: "e \<le> 48" by (simp add: e_def)
  have y0: "0 \<le> \<bar>x\<bar> / 2 powi e" by simp
  show n0: "0 \<le> n" unfolding n_def by (rule round_even_nonneg [OF y0])
  have "of_int n \<le> 2 * (\<bar>x\<bar> / 2 powi e)"
    unfolding n_def by (rule round_even_le_double [OF y0])
  then have "of_int n * 2 powi e \<le> 2 * (\<bar>x\<bar> / 2 powi e) * 2 powi e"
    using pe by (intro mult_right_mono) simp_all
  then show nle: "of_int n * 2 powi e \<le> 2 * \<bar>x\<bar>" by simp
  have "\<not> 1024 < e + bit_length n"
  proof (cases "n = 0")
    case True
    then have "bit_length n = 0" by (subst bit_length.simps) simp
    with e_le show ?thesis by simp
  next
    case False
    with n0 have npos: "0 < n" by simp
    have "(2::rat) powi (e + (bit_length n - 1)) = 2 powi e * 2 powi (bit_length n - 1)"
      by (simp add: power_int_add)
    also have "\<dots> \<le> 2 powi e * of_int n"
      using bit_length_lower_rat [OF npos] by (intro mult_left_mono) simp_all
    also have "\<dots> \<le> 2 * \<bar>x\<bar>" using nle by (simp add: mult.commute)
    also have "\<dots> \<le> 2 powi 101" using bound by simp
    finally have "e + (bit_length n - 1) \<le> 101"
      by (rule power_int_le_imp_le_exp [rotated]) simp_all
    then show ?thesis by simp
  qed
  then show "round_double x = Fin (if 0 < x then of_int n * 2 powi e else - (of_int n * 2 powi e))"
    using nz by (simp add: round_double_def Let_def e_def n_def)
qed

lemma round_double_bounded:
  assumes "\<bar>x\<bar> \<le> 2 ^ 100"
  shows "\<exists>r. round_double x = Fin r \<and> \<bar>r\<bar> \<le> 2 * \<bar>x\<bar>"
proof (cases "x = 0")
  case True
  then show ?thesis by (simp add: round_double_def)
next
  case False
  define m :: rat where
    "m = of_int (round_even (\<bar>x\<bar> / 2 powi max (ilog2 \<bar>x\<bar> - 52) (- 1074))) *
         2 powi max (ilog2 \<bar>x\<bar> - 52) (- 1074)"
  from round_double_repr [OF False assms]
  have r: "round_double x = Fin (if 0 < x then m else - m)"
    and m0: "0 \<le> m" and le: "m \<le> 2 * \<bar>x\<bar>"
    unfolding m_def by simp_all
  from m0 have "\<bar>if 0 < x then m else - m\<bar> = m" by simp
  with r le show ?thesis by simp
qed

lemma round_double_lower:
  assumes x1: "1 \<le> x" and bound: "x \<le> 2 ^ 100"
  shows "\<exists>r. round_double x = Fin r \<and> x / 2 \<le> r"
proof -
  let ?e = "max (ilog2 \<bar>x\<bar> - 52) (- 1074)"
  let ?n = "round_even (\<bar>x\<bar> / 2 powi ?e)"
  from x1 have nz: "x \<noteq> 0" and ax: "\<bar>x\<bar> = x" and xpos: "0 < x" by simp_all
  from bound ax have b: "\<bar>x\<bar> \<le> 2 ^ 100" by simp
  from round_double_repr(1) [OF nz b] xpos
  have r: "round_double x = Fin (of_int ?n * 2 powi ?e)" by simp
  have pe: "(0::rat) < 2 powi ?e" by simp
  have "(2::rat) powi ?e \<le> x"
  proof (cases "ilog2 \<bar>x\<bar> - 52 \<le> - 1074")
    case True
    then have "?e = - 1074" by simp
    moreover have "(2::rat) powi (- 1074) \<le> 1"
      by (simp add: power_int_minus inverse_le_1_iff)
    ultimately show ?thesis using x1 by simp
  next
    case False
    then have "?e = ilog2 \<bar>x\<bar> - 52" by simp
    then have "(2::rat) powi ?e \<le> 2 powi ilog2 \<bar>x\<bar>"
      by (simp add: power_int_increasing)
    also have "\<dots> \<le> \<bar>x\<bar>" by (rule ilog2_le) (use nz in simp)
    finally show ?thesis using ax by simp
  qed
  then have "1 \<le> \<bar>x\<bar> / 2 powi ?e" using pe ax by (simp add: le_divide_eq)
  then have "\<bar>x\<bar> / 2 powi ?e / 2 \<le> of_int ?n" by (rule round_even_ge_half)
  then have "\<bar>x\<bar> / 2 powi ?e / 2 * 2 powi ?e \<le> of_int ?n * 2 powi ?e"
    using pe by (intro mult_right_mono) simp_all
  then have "x / 2 \<le> of_int ?n * 2 powi ?e" using ax by simp
  with r show ?thesis by simp
qed

lemma u64_to_double_bounded: "\<exists>r. u64_to_double w = Fin r \<and> \<bar>r\<bar> \<le> 2 ^ 65"
proof -
  define u where "u = uint w"
  have conv: "u64_to_double w = round_double (of_int u)"
    by (simp only: u64_to_double_def u_def)
  have "u < 2 ^ 64" unfolding u_def using uint_bounded [of w] by simp
  then have "(of_int u :: rat) \<le> of_int (2 ^ 64)"
    by (simp only: of_int_le_iff less_imp_le)
  then have le: "(of_int u :: rat) \<le> 2 ^ 64" by simp
  have "0 \<le> u" unfolding u_def by simp
  then have ge: "(0::rat) \<le> of_int u" by simp
  from le ge have "\<bar>of_int u :: rat\<bar> \<le> 2 ^ 100" by simp
  from round_double_bounded [OF this] obtain r
    where "round_double (of_int u) = Fin r" and "\<bar>r\<bar> \<le> 2 * \<bar>of_int u :: rat\<bar>"
    by blast
  with le ge conv show ?thesis by auto
qed

lemma u64_to_double_nonzero:
  assumes "w \<noteq> 0"
  shows "\<exists>r. u64_to_double w = Fin r \<and> 1 / 2 \<le> r"
proof -
  define u where "u = uint w"
  have conv: "u64_to_double w = round_double (of_int u)"
    by (simp only: u64_to_double_def u_def)
  have "u < 2 ^ 64" unfolding u_def using uint_bounded [of w] by simp
  then have "(of_int u :: rat) \<le> of_int (2 ^ 64)"
    by (simp only: of_int_le_iff less_imp_le)
  then have le: "(of_int u :: rat) \<le> 2 ^ 100" by simp
  from assms have "u \<noteq> 0" unfolding u_def by (simp add: uint_0_iff)
  moreover have "0 \<le> u" unfolding u_def by simp
  ultimately have "1 \<le> u" by linarith
  then have ge: "(1::rat) \<le> of_int u" by simp
  from round_double_lower [OF ge le] obtain r
    where "round_double (of_int u) = Fin r" and "of_int u / 2 \<le> r"
    by blast
  with ge conv show ?thesis by auto
qed

lemma load_ratio_finite:
  assumes "total_diff \<noteq> 0"
  shows "is_finite (dmul (Fin 100)
           (dsub (Fin 1) (ddiv (u64_to_double idle_diff) (u64_to_double total_diff))))"
proof -
  obtain a where a: "u64_to_double idle_diff = Fin a" and a_le: "\<bar>a\<bar> \<le> 2 ^ 65"
    using u64_to_double_bounded by blast
  obtain b where b: "u64_to_double total_diff = Fin b" and b_ge: "1 / 2 \<le> b"
    using u64_to_double_nonzero [OF assms] by blast
  from b_ge have bnz: "b \<noteq> 0" and bpos: "0 < b" by simp_all
  have "\<bar>a / b\<bar> = \<bar>a\<bar> / b" using bpos by simp
  also have "\<dots> \<le> \<bar>a\<bar> / (1 / 2)" using b_ge by (intro divide_left_mono) simp_all
  also have "\<dots> \<le> 2 ^ 66" using a_le by simp
  finally have q_in: "\<bar>a / b\<bar> \<le> 2 ^ 66" .
  then have "\<bar>a / b\<bar> \<le> 2 ^ 100" by simp
  from round_double_bounded [OF this] obtain q
    where q: "round_double (a / b) = Fin q" and q_le: "\<bar>q\<bar> \<le> 2 * \<bar>a / b\<bar>" by blast
  from q_le q_in have q67: "\<bar>q\<bar> \<le> 2 ^ 67" by simp
  then have "\<bar>1 - q\<bar> \<le> 2 ^ 68" by simp
  then have s_in: "\<bar>1 - q\<bar> \<le> 2 ^ 100" by simp
  from round_double_bounded [OF this] obtain s
    where s: "round_double (1 - q) = Fin s" and s_le: "\<bar>s\<bar> \<le> 2 * \<bar>1 - q\<bar>" by blast
  from s_le \<open>\<bar>1 - q\<bar> \<le> 2 ^ 68\<close> have "\<bar>s\<bar> \<le> 2 ^ 69" by simp
  then have "\<bar>100 * s\<bar> \<le> 2 ^ 100" by (simp add: abs_mult)
  from round_double_bounded [OF this] obtain m where "round_double (100 * s) = Fin m" by blast
  with a b bnz q s show ?thesis by (simp add: is_finite_def)
qed

lemma calculate_cpu_load_finite: "is_finite (calculate_cpu_load cur prev)"
  by (simp add: calculate_cpu_load_def Let_def load_ratio_finite) (simp add: is_finite_def)

lemma calculate_cpu_load_same:
  "get_total_time cur = get_total_time prev \<Longrightarrow> calculate_cpu_load cur prev = Fin 0"
  by (simp add: calculate_cpu_load_def Let_def)

lemma uint_get_total_time: "uint (get_total_time s) = total_ticks s mod 2 ^ 64"
  by (simp add: get_total_time_def total_ticks_def uint_word_ariths mod_simps)

lemma uint_get_idle_time: "uint (get_idle_time s) = idle_ticks s mod 2 ^ 64"
  by (simp add: get_idle_time_def idle_ticks_def uint_word_ariths mod_simps)

lemma total_ticks_nonneg: "0 \<le> total_ticks s"
  by (simp add: total_ticks_def)

lemma idle_ticks_nonneg: "0 \<le> idle_ticks s"
  by (simp add: idle_ticks_def)

lemma uint_total_exact: "total_ticks s < 2 ^ 64 \<Longrightarrow> uint (get_total_time s) = total_ticks s"
  using total_ticks_nonneg [of s] by (simp add: uint_get_total_time)

lemma uint_idle_exact: "idle_ticks s < 2 ^ 64 \<Longrightarrow> uint (get_idle_time s) = idle_ticks s"
  using idle_ticks_nonneg [of s] by (simp add: uint_get_idle_time)

lemma uint_total_delta:
  assumes "total_ticks prev \<le> total_ticks cur" and "total_ticks cur < 2 ^ 64"
  shows "uint (get_total_time cur - get_total_time prev) = total_ticks cur - total_ticks prev"
proof -
  from assms have "total_ticks prev < 2 ^ 64" by simp
  with assms have "uint (get_total_time cur) = total_ticks cur"
    and "uint (get_total_time prev) = total_ticks prev"
    by (simp_all add: uint_total_exact)
  moreover have "0 \<le> total_ticks cur - total_ticks prev"
    and "total_ticks cur - total_ticks prev < 2 ^ 64"
    using assms total_ticks_nonneg [of prev] by simp_all
  ultimately show ?thesis by (simp add: uint_word_ariths)
qed

lemma uint_idle_delta:
  assumes "idle_ticks prev \<le> idle_ticks cur" and "idle_ticks cur < 2 ^ 64"
  shows "uint (get_idle_time cur - get_idle_time prev) = idle_ticks cur - idle_ticks prev"
proof -
  from assms have "idle_ticks prev < 2 ^ 64" by simp
  with assms have "uint (get_idle_time cur) = idle_ticks cur"
    and "uint (get_idle_time prev) = idle_ticks prev"
    by (simp_all add: uint_idle_exact)
  moreover have "0 \<le> idle_ticks cur - idle_ticks prev"
    and "idle_ticks cur - idle_ticks prev < 2 ^ 64"
    using assms idle_ticks_nonneg [of prev] by simp_all
  ultimately show ?thesis by (simp add: uint_word_ariths)
qed

lemma load_80: "printf_fixed 2 (dmul (Fin 100) (dsub (Fin 1) (ddiv (u64_to_double 20) (u64_to_double 100)))) = ''80.00''"
  by code_simp

lemma printf_zero: "printf_fixed 2 (Fin 0) = ''0.00''"
  by code_simp

subsection \<open>The loops of \<^verbatim>\<open>main\<close>\<close>

lemma for_loop_stop [simp]: "\<not> i < n \<Longrightarrow> for_loop i n body s = s"
  by (subst for_loop.simps) simp

lemma for_loop_step: "i < n \<Longrightarrow> for_loop i n body s = for_loop (i + 1) n body (body i s)"
  by (subst for_loop.simps) simp

lemma deliver_None [simp]: "deliver None p s = s"
  by (simp add: deliver_def)

lemma deliver_done: "deliver sg p s = s\<lparr>done_flag := done_flag s \<or> sg = Some p\<rparr>"
  by (simp add: deliver_def term_handler_def)

lemma core_step_None:
  "core_step None i s =
     s\<lparr>out := out s @ '','' @ printf_fixed 2
             (if \<not> first_reading s
              then calculate_cpu_load (current (cpu_data s i)) (previous (cpu_data s i))
              else Fin 0),
       cpu_data := (cpu_data s)(i := (cpu_data s i)\<lparr>previous := current (cpu_data s i)\<rparr>)\<rparr>"
  by (simp add: core_step_def Let_def)

lemma core_step_signal:
  "core_step sg i s = (core_step None i s)\<lparr>done_flag := done_flag s \<or> sg = Some (4 + nat i)\<rparr>"
  by (simp add: core_step_def Let_def deliver_done)

lemma core_step_None_done:
  "core_step None i (s\<lparr>done_flag := d\<rparr>) = (core_step None i s)\<lparr>done_flag := d\<rparr>"
  by (simp add: core_step_None)

lemma core_loop_None_done:
  "for_loop i n (core_step None) (s\<lparr>done_flag := d\<rparr>) =
   (for_loop i n (core_step None) s)\<lparr>done_flag := d\<rparr>"
proof (induction i n "core_step None" s rule: for_loop.induct)
  case (1 i n s)
  show ?case
  proof (cases "i < n")
    case False
    then show ?thesis by simp
  next
    case True
    with 1 show ?thesis by (simp add: for_loop_step core_step_None_done)
  qed
qed

lemma core_loop_None_done_flag [simp]:
  "done_flag (for_loop i n (core_step None) s) = done_flag s"
proof (induction i n "core_step None" s rule: for_loop.induct)
  case (1 i n s)
  show ?case
  proof (cases "i < n")
    case False
    then show ?thesis by simp
  next
    case True
    with 1 show ?thesis by (simp add: for_loop_step) (simp add: core_step_None)
  qed
qed

lemma core_loop_signal:
  "for_loop i n (core_step sg) s =
   (for_loop i n (core_step None) s)
     \<lparr>done_flag := done_flag s \<or> (\<exists>j. i \<le> j \<and> j < n \<and> sg = Some (4 + nat j))\<rparr>"
proof (induction i n "core_step sg" s rule: for_loop.induct)
  case (1 i n s)
  show ?case
  proof (cases "i < n")
    case False
    then have "s = s\<lparr>done_flag := done_flag s
                    \<or> (\<exists>j. i \<le> j \<and> j < n \<and> sg = Some (4 + nat j))\<rparr>"
      by (cases s) auto
    with False show ?thesis by (simp only: for_loop_stop not_False_eq_True)
  next
    case True
    have ex: "(sg = Some (4 + nat i) \<or> (\<exists>j. i + 1 \<le> j \<and> j < n \<and> sg = Some (4 + nat j)))
              = (\<exists>j. i \<le> j \<and> j < n \<and> sg = Some (4 + nat j))" (is "?l = ?r")
    proof
      assume ?l
      then show ?r
      proof
        assume "sg = Some (4 + nat i)"
        with True show ?r by (intro exI [of _ i]) simp
      next
        assume "\<exists>j. i + 1 \<le> j \<and> j < n \<and> sg = Some (4 + nat j)"
        then obtain j where "i + 1 \<le> j" "j < n" "sg = Some (4 + nat j)" by blast
        then show ?r by (intro exI [of _ j]) simp
      qed
    next
      assume ?r
      then obtain j where j: "i \<le> j" "j < n" "sg = Some (4 + nat j)" by blast
      show ?l
      proof (cases "j = i")
        case True
        with j show ?thesis by simp
      next
        case False
        with j have "i + 1 \<le> j" by simp
        with j show ?thesis by blast
      qed
    qed
    have "for_loop i n (core_step sg) s = for_loop (i + 1) n (core_step sg) (core_step sg i s)"
      using True by (rule for_loop_step)
    also have "\<dots> = (for_loop (i + 1) n (core_step None) (core_step sg i s))
        \<lparr>done_flag := done_flag (core_step sg i s)
            \<or> (\<exists>j. i + 1 \<le> j \<and> j < n \<and> sg = Some (4 + nat j))\<rparr>"
      using True by (rule 1)
    also have "\<dots> = (for_loop (i + 1) n (core_step None) (core_step None i s))
        \<lparr>done_flag := done_flag s \<or> (\<exists>j. i \<le> j \<and> j < n \<and> sg = Some (4 + nat j))\<rparr>"
      by (subst (1 2) core_step_signal) (simp add: core_loop_None_done core_step_None ex disj_assoc)
    also have "for_loop (i + 1) n (core_step None) (core_step None i s)
               = for_loop i n (core_step None) s"
      using True by (rule for_loop_step [symmetric])
    finally show ?thesis .
  qed
qed

lemma core_step_None_fields [simp]:
  "out (core_step None i s) = out s @ '','' @ printf_fixed 2 (core_load (first_reading s) (cpu_data s) i)"
  "cpu_data (core_step None i s) = (cpu_data s)(i := (cpu_data s i)\<lparr>previous := current (cpu_data s i)\<rparr>)"
  "first_reading (core_step None i s) = first_reading s"
  "marker_writes (core_step None i s) = marker_writes s"
  by (simp_all add: core_step_None core_load_def)

lemma core_loop_None_first_reading [simp]:
  "first_reading (for_loop i n (core_step None) s) = first_reading s"
proof (induction i n "core_step None" s rule: for_loop.induct)
  case (1 i n s)
  then show ?case by (cases "i < n") (simp_all add: for_loop_step)
qed

lemma core_loop_None_marker_writes [simp]:
  "marker_writes (for_loop i n (core_step None) s) = marker_writes s"
proof (induction i n "core_step None" s rule: for_loop.induct)
  case (1 i n s)
  then show ?case by (cases "i < n") (simp_all add: for_loop_step)
qed

lemma core_loop_None_cpu_data:
  "cpu_data (for_loop i n (core_step None) s) j =
     (if i \<le> j \<and> j < n then (cpu_data s j)\<lparr>previous := current (cpu_data s j)\<rparr>
      else cpu_data s j)"
proof (induction i n "core_step None" s rule: for_loop.induct)
  case (1 i n s)
  show ?case
  proof (cases "i < n")
    case False
    then show ?thesis by auto
  next
    case True
    with 1 show ?thesis by (auto simp: for_loop_step)
  qed
qed

lemma core_load_cong:
  "a j = b j \<Longrightarrow> core_load first a j = core_load first b j"
  by (simp add: core_load_def)

lemma core_loop_None_out:
  "out (for_loop i n (core_step None) s) =
     out s @ concat (map (\<lambda>j. '','' @ printf_fixed 2 (core_load (first_reading s) (cpu_data s) j))
                      [i..n - 1])"
proof (induction i n "core_step None" s rule: for_loop.induct)
  case (1 i n s)
  show ?case
  proof (cases "i < n")
    case False
    then show ?thesis by simp
  next
    case True
    then have upto: "[i..n - 1] = i # [i + 1..n - 1]" by (simp add: upto_rec1)
    let ?s1 = "core_step None i s"
    let ?f = "\<lambda>a j. '','' @ printf_fixed 2 (core_load (first_reading s) a j)"
    have same: "map (?f (cpu_data ?s1)) [i + 1..n - 1] = map (?f (cpu_data s)) [i + 1..n - 1]"
      by (rule map_cong) (auto intro!: core_load_cong arg_cong [where f = "printf_fixed 2"])
    have "out (for_loop i n (core_step None) s) = out (for_loop (i + 1) n (core_step None) ?s1)"
      using True by (simp add: for_loop_step)
    also have "\<dots> = out ?s1 @ concat (map (?f (cpu_data ?s1)) [i + 1..n - 1])"
      using True 1 by (simp del: core_step_None_fields add: core_step_None_fields(3))
    also have "\<dots> = out ?s1 @ concat (map (?f (cpu_data s)) [i + 1..n - 1])"
      by (simp only: same)
    also have "\<dots> = out s @ concat (map (?f (cpu_data s)) [i..n - 1])"
      by (simp add: upto)
    finally show ?thesis .
  qed
qed

lemma deliver_from_done:
  "deliver_from sg p s = s\<lparr>done_flag := done_flag s \<or> (\<exists>q. sg = Some q \<and> p \<le> q)\<rparr>"
  by (cases sg) (simp_all add: deliver_from_def term_handler_def)

lemma signal_points_cover:
  "(sg = Some 0 \<or> sg = Some 1 \<or> sg = Some 2 \<or> sg = Some 3
    \<or> (\<exists>j. 0 \<le> j \<and> j < n \<and> sg = Some (4 + nat j))
    \<or> sg = Some (4 + nat n) \<or> (\<exists>q. sg = Some q \<and> 5 + nat n \<le> q))
   = (sg \<noteq> None)"
proof (cases sg)
  case None
  then show ?thesis by simp
next
  case (Some p)
  consider "p \<le> 3" | "4 \<le> p" "p < 4 + nat n" | "p = 4 + nat n" | "5 + nat n \<le> p"
    by linarith
  then have "p = 0 \<or> p = 1 \<or> p = 2 \<or> p = 3
             \<or> (\<exists>j. 0 \<le> j \<and> j < n \<and> p = 4 + nat j)
             \<or> p = 4 + nat n \<or> 5 + nat n \<le> p"
  proof cases
    case 1
    then show ?thesis by auto
  next
    case 2
    then have "0 \<le> int (p - 4) \<and> int (p - 4) < n \<and> p = 4 + nat (int (p - 4))" by auto
    then show ?thesis by blast
  next
    case 3
    then show ?thesis by simp
  next
    case 4
    then show ?thesis by simp
  qed
  with Some show ?thesis by simp
qed

lemma iteration_out:
  "out (iteration m n t s) =
     out s @ row_line (clock t)
               (core_loads (first_reading s) (fst (parse_cpu_stats (stat t) (cpu_data s) n)) n)
     @ [newline]"
  by (simp add: iteration_def Let_def deliver_done deliver_from_done core_loop_signal [where sg = "sigterm t"]
        core_loop_None_out row_line_def core_loads_def comp_def)

lemma iteration_first_reading: "first_reading (iteration m n t s) = False"
  by (simp add: iteration_def Let_def deliver_done deliver_from_done)

lemma iteration_marker_writes:
  "marker_writes (iteration m n t s) = marker_writes s + (if m \<and> first_reading s then 1 else 0)"
  by (simp add: iteration_def Let_def deliver_done deliver_from_done core_loop_signal [where sg = "sigterm t"])

lemma iteration_cpu_data:
  "cpu_data (iteration m n t s) j =
     (let a = fst (parse_cpu_stats (stat t) (cpu_data s) n)
      in if 0 \<le> j \<and> j < n then (a j)\<lparr>previous := current (a j)\<rparr> else a j)"
  by (simp add: iteration_def Let_def deliver_done deliver_from_done core_loop_signal [where sg = "sigterm t"]
        core_loop_None_cpu_data)

lemma iteration_done_flag:
  "done_flag (iteration m n t s) = (done_flag s \<or> sigterm t \<noteq> None)"
proof -
  have "done_flag (iteration m n t s) =
    (done_flag s \<or> (sigterm t = Some 0 \<or> sigterm t = Some 1 \<or> sigterm t = Some 2
      \<or> sigterm t = Some 3
      \<or> (\<exists>j. 0 \<le> j \<and> j < n \<and> sigterm t = Some (4 + nat j))
      \<or> sigterm t = Some (4 + nat n) \<or> (\<exists>q. sigterm t = Some q \<and> 5 + nat n \<le> q)))"
    by (simp add: iteration_def Let_def deliver_done deliver_from_done core_loop_signal [where sg = "sigterm t"] disj_assoc)
  then show ?thesis by (simp only: signal_points_cover)
qed

subsection \<open>Text: fields, lines, and what the conversions print\<close>

lemma split_at_nonempty [simp]: "split_at c s \<noteq> []"
  by (induction s) auto

lemma split_at_code [code]:
  "split_at c [] = [[]]"
  "split_at c (x # xs) =
     (case split_at c xs of
        [] \<Rightarrow> (if x = c then [[]] else [[x]])
      | r # rs \<Rightarrow> if x = c then [] # r # rs else (x # r) # rs)"
  using split_at_nonempty [of c xs] by (simp_all split: list.split)

lemma split_at_free: "c \<notin> set a \<Longrightarrow> split_at c a = [a]"
  by (induction a) auto

lemma split_at_append: "c \<notin> set a \<Longrightarrow> split_at c (a @ c # b) = a # split_at c b"
  by (induction a) auto

lemma split_at_fields:
  "\<forall>x\<in>set xs. c \<notin> set x \<Longrightarrow> c \<notin> set a \<Longrightarrow>
   split_at c (a @ concat (map (\<lambda>x. c # x) xs)) = a # xs"
proof (induction xs arbitrary: a)
  case Nil
  then show ?case by (simp add: split_at_free)
next
  case (Cons x xs)
  then have "split_at c (x @ concat (map (\<lambda>x. c # x) xs)) = x # xs" by simp
  with Cons.prems show ?case by (simp add: split_at_append)
qed

lemma split_at_lines:
  "\<forall>r\<in>set rows. c \<notin> set r \<Longrightarrow>
   split_at c (concat (map (\<lambda>r. r @ [c]) rows)) = rows @ [[]]"
  by (induction rows) (simp_all add: split_at_append)

lemma digit_char_values:
  "digit_char 0 = CHR ''0''" "digit_char 1 = CHR ''1''" "digit_char 2 = CHR ''2''"
  "digit_char 3 = CHR ''3''" "digit_char 4 = CHR ''4''" "digit_char 5 = CHR ''5''"
  "digit_char 6 = CHR ''6''" "digit_char 7 = CHR ''7''" "digit_char 8 = CHR ''8''"
  "digit_char 9 = CHR ''9''"
  by code_simp+

lemma newline_char: "newline = CHR 0x0A"
  by code_simp

lemma plain_digit_char: "0 \<le> d \<Longrightarrow> d < 10 \<Longrightarrow> plain (digit_char d)"
proof -
  assume "0 \<le> d" "d < 10"
  then have "d = 0 \<or> d = 1 \<or> d = 2 \<or> d = 3 \<or> d = 4 \<or> d = 5 \<or> d = 6 \<or> d = 7 \<or> d = 8 \<or> d = 9"
    by presburger
  then show ?thesis
    by (elim disjE) (simp_all add: digit_char_values plain_def newline_char)
qed

lemma plain_dec: "0 \<le> n \<Longrightarrow> list_all plain (dec n)"
proof (induction n rule: dec.induct)
  case (1 n)
  show ?case
  proof (cases "n < 10")
    case True
    with 1 plain_digit_char [of n] show ?thesis by (subst dec.simps) simp
  next
    case False
    with 1 have "list_all plain (dec (n div 10))" by simp
    moreover have "plain (digit_char (n mod 10))"
      by (rule plain_digit_char) simp_all
    ultimately show ?thesis using False by (subst dec.simps) simp
  qed
qed

lemma dec_nonempty [simp]: "dec n \<noteq> []"
  by (subst dec.simps) simp

lemma round_even_abs_nonneg: "0 \<le> round_even (\<bar>a\<bar> * 10 ^ p)"
  by (rule round_even_nonneg) simp

lemma plain_printf_fixed: "list_all plain (printf_fixed p x)"
proof (cases x)
  case (Fin a)
  define n where "n = round_even (\<bar>a\<bar> * 10 ^ p)"
  have n: "0 \<le> n" unfolding n_def by (rule round_even_abs_nonneg)
  then have "0 \<le> n div 10 ^ p" and "0 \<le> n mod 10 ^ p"
    by (simp_all add: pos_imp_zdiv_nonneg_iff)
  then have w: "list_all plain (dec (n div 10 ^ p))" and f: "list_all plain (dec (n mod 10 ^ p))"
    by (simp_all only: plain_dec)
  have z: "plain CHR ''0''" "plain CHR ''-''" "plain CHR ''.''"
    by (simp_all add: plain_def newline_char)
  have r: "list_all plain (replicate k CHR ''0'')" for k
    using z(1) by (induction k) simp_all
  from Fin w f z r show ?thesis
    by (simp add: printf_fixed_def Let_def n_def)
next
  case PInf
  then show ?thesis by (simp add: printf_fixed_def plain_def newline_char)
next
  case NInf
  then show ?thesis by (simp add: printf_fixed_def plain_def newline_char)
next
  case NaN
  then show ?thesis by (simp add: printf_fixed_def plain_def newline_char)
qed

lemma printf_fixed_nonempty [simp]: "printf_fixed p x \<noteq> []"
  by (cases x) (simp_all add: printf_fixed_def Let_def)

lemma plain_printf_d: "list_all plain (printf_d i)"
  using plain_dec [of i] plain_dec [of "- i"]
  by (simp add: printf_d_def plain_def newline_char)

lemma plain_free:
  "list_all plain s \<Longrightarrow> CHR '','' \<notin> set s \<and> newline \<notin> set s \<and> CHR ''t'' \<notin> set s"
  by (auto simp: list_all_iff plain_def)

lemma printf_fixed_plain [simp]:
  "CHR '','' \<notin> set (printf_fixed p x)" "newline \<notin> set (printf_fixed p x)"
  "CHR ''t'' \<notin> set (printf_fixed p x)"
  using plain_free [OF plain_printf_fixed [of p x]] by simp_all

lemma printf_d_plain [simp]:
  "CHR '','' \<notin> set (printf_d i)" "newline \<notin> set (printf_d i)"
  using plain_free [OF plain_printf_d [of i]] by simp_all

subsection \<open>The output of a run\<close>

lemma header_line_fields:
  "split_at CHR '','' (header_line n)
   = ''time'' # map (\<lambda>i. ''cpu'' @ printf_d i @ ''_load'') [0..n - 1]"
proof -
  have "header_line n
        = ''time'' @ concat (map (\<lambda>x. CHR '','' # x) (map (\<lambda>i. ''cpu'' @ printf_d i @ ''_load'') [0..n - 1]))"
    by (simp add: header_line_def comp_def)
  then show ?thesis by (simp only: split_at_fields) (subst split_at_fields, auto)
qed

lemmas printf_plain_nl =
  printf_fixed_plain(2) [unfolded newline_char] printf_d_plain(2) [unfolded newline_char]

lemma header_line_no_newline: "newline \<notin> set (header_line n)"
  by (auto simp: header_line_def newline_char printf_plain_nl)

lemma row_line_fields:
  "split_at CHR '','' (row_line ts loads)
   = printf_fixed 6 (time_float ts) # map (printf_fixed 2) loads"
proof -
  have "row_line ts loads
        = printf_fixed 6 (time_float ts) @ concat (map (\<lambda>x. CHR '','' # x) (map (printf_fixed 2) loads))"
    by (simp add: row_line_def comp_def)
  then show ?thesis by (simp only:) (subst split_at_fields, auto)
qed

lemma row_line_no_newline: "newline \<notin> set (row_line ts loads)"
  by (auto simp: row_line_def newline_char printf_plain_nl)

lemma row_line_not_header: "row_line ts loads \<noteq> header_line n"
proof
  assume "row_line ts loads = header_line n"
  then have "hd (row_line ts loads) = hd (header_line n)" by simp
  then have "hd (printf_fixed 6 (time_float ts)) = CHR ''t''"
    by (simp add: row_line_def header_line_def)
  moreover have "hd (printf_fixed 6 (time_float ts)) \<in> set (printf_fixed 6 (time_float ts))"
    by (rule hd_in_set) simp
  ultimately show False by simp
qed

lemma length_core_loads [simp]: "length (core_loads first a n) = nat n"
  by (simp add: core_loads_def)

lemma text_loop:
  "for_loop i n (\<lambda>j text. text @ f j) acc = acc @ concat (map f [i..n - 1])"
proof (induction i n "\<lambda>j text. text @ f j" acc rule: for_loop.induct)
  case (1 i n acc)
  show ?case
  proof (cases "i < n")
    case False
    then show ?thesis by simp
  next
    case True
    then have "[i..n - 1] = i # [i + 1..n - 1]" by (simp add: upto_rec1)
    with True 1 show ?thesis by (simp add: for_loop_step)
  qed
qed

lemma seed_loop:
  "for_loop i n (\<lambda>j (a :: cpu_array). a(j := (a j)\<lparr>previous := current (a j)\<rparr>)) a k =
     (if i \<le> k \<and> k < n then (a k)\<lparr>previous := current (a k)\<rparr> else a k)"
proof (induction i n "\<lambda>j (a :: cpu_array). a(j := (a j)\<lparr>previous := current (a j)\<rparr>)" a
       rule: for_loop.induct)
  case (1 i n a)
  show ?case
  proof (cases "i < n")
    case False
    then show ?thesis by auto
  next
    case True
    with 1 show ?thesis by (auto simp: for_loop_step)
  qed
qed

lemma initial_state_fields [simp]:
  "out (initial_state w n) = header_line n @ [newline]"
  "first_reading (initial_state w n) = True"
  "done_flag (initial_state w n) = sigterm_before_loop w"
  "marker_writes (initial_state w n) = 0"
  by (simp_all add: initial_state_def Let_def text_loop header_line_def)

lemma initial_state_cpu_data:
  "cpu_data (initial_state w n) k =
     (let a = fst (parse_cpu_stats (initial w) calloc_data n)
      in if 0 \<le> k \<and> k < n then (a k)\<lparr>previous := current (a k)\<rparr> else a k)"
  by (simp add: initial_state_def Let_def seed_loop)

lemma run_loop_done [simp]: "done_flag s \<Longrightarrow> run_loop m n ts s = s"
  by (cases ts) simp_all

lemma run_loop_append: "run_loop m n (xs @ ys) s = run_loop m n ys (run_loop m n xs s)"
  by (induction xs arbitrary: s) simp_all

lemma run_loop_out:
  "out (run_loop m n ts s) = out s @ concat (map (\<lambda>r. r @ [newline]) (run_rows m n ts s))"
  by (induction ts arbitrary: s) (simp_all add: iteration_out)

lemma run_loop_done_flag:
  "done_flag (run_loop m n ts s) = (done_flag s \<or> list_ex (\<lambda>t. sigterm t \<noteq> None) ts)"
  by (induction ts arbitrary: s) (auto simp: iteration_done_flag)

lemma run_rows_quiet:
  "\<not> done_flag s \<Longrightarrow> list_all (\<lambda>t. sigterm t = None) ts \<Longrightarrow>
   length (run_rows m n ts s) = length ts"
  by (induction ts arbitrary: s) (simp_all add: iteration_done_flag)

lemma run_rows_length: "length (run_rows m n ts s) \<le> length ts"
  by (induction ts arbitrary: s) simp_all

lemma run_rows_shape:
  "r \<in> set (run_rows m n ts s) \<Longrightarrow>
   \<exists>t loads. t \<in> set ts \<and> length loads = nat n \<and> r = row_line (clock t) loads"
proof (induction ts arbitrary: s)
  case Nil
  then show ?case by simp
next
  case (Cons t ts)
  show ?case
  proof (cases "done_flag s")
    case True
    with Cons.prems show ?thesis by simp
  next
    case False
    with Cons.prems consider
      "r = row_line (clock t)
             (core_loads (first_reading s) (fst (parse_cpu_stats (stat t) (cpu_data s) n)) n)"
      | "r \<in> set (run_rows m n ts (iteration m n t s))"
      by auto
    then show ?thesis
    proof cases
      case 1
      then show ?thesis by (intro exI [of _ t] exI conjI) simp_all
    next
      case 2
      from Cons.IH [OF this] show ?thesis by auto
    qed
  qed
qed

lemma iteration_undisturbed:
  "iteration m n t s
   = (iteration m n (t\<lparr>sigterm := None\<rparr>) s)\<lparr>done_flag := done_flag s \<or> sigterm t \<noteq> None\<rparr>"
proof (rule loop_state.equality)
  show "cpu_data (iteration m n t s)
        = cpu_data ((iteration m n (t\<lparr>sigterm := None\<rparr>) s)
                      \<lparr>done_flag := done_flag s \<or> sigterm t \<noteq> None\<rparr>)"
    by (rule ext) (simp add: iteration_cpu_data)
qed (simp_all add: iteration_out iteration_first_reading iteration_marker_writes
       iteration_done_flag)

lemma main_starts:
  "starts w \<Longrightarrow>
   main w =
     (if done_flag (final_state w)
      then exited 0 True True (out (final_state w)) (marker_writes (final_state w))
      else \<lparr>stdout = out (final_state w), exit_status = None, stat_file_closed = False,
            cpu_data_freed = False, trace_markers = marker_writes (final_state w)\<rparr>)"
  by (simp add: main_def starts_def options_of_def final_state_def Let_def)

lemma final_state_done: "done_flag (final_state w) = signalled w"
  by (simp add: final_state_def run_loop_done_flag signalled_def)

lemma stdout_main: "starts w \<Longrightarrow> stdout (main w) = out (final_state w)"
  by (simp add: main_starts exited_def)

lemma stdout_main_rows:
  "starts w \<Longrightarrow>
   stdout (main w) =
     header_line (count_cpus (discovery w)) @ [newline]
     @ concat (map (\<lambda>r. r @ [newline])
         (run_rows (should_write_marker (options_of w)) (count_cpus (discovery w)) (ticks w)
            (initial_state w (count_cpus (discovery w)))))"
  by (simp add: stdout_main final_state_def run_loop_out)

lemma exit_status_main:
  "starts w \<Longrightarrow> exit_status (main w) = (if signalled w then Some 0 else None)"
  by (simp add: main_starts exited_def final_state_done)

lemma released_main:
  "starts w \<Longrightarrow> cpu_data_freed (main w) = signalled w"
  "starts w \<Longrightarrow> stat_file_closed (main w) = signalled w"
  by (simp_all add: main_starts exited_def final_state_done)

lemma split_stdout:
  assumes "starts w"
  shows "split_at newline (stdout (main w))
         = header_line (count_cpus (discovery w))
           # run_rows (should_write_marker (options_of w)) (count_cpus (discovery w)) (ticks w)
               (initial_state w (count_cpus (discovery w))) @ [[]]"
proof -
  let ?rows = "run_rows (should_write_marker (options_of w)) (count_cpus (discovery w)) (ticks w)
               (initial_state w (count_cpus (discovery w)))"
  have free: "\<forall>r\<in>set ?rows. newline \<notin> set r"
    by (auto dest!: run_rows_shape simp: row_line_no_newline)
  have "stdout (main w)
        = header_line (count_cpus (discovery w)) @ newline # concat (map (\<lambda>r. r @ [newline]) ?rows)"
    using assms by (simp add: stdout_main_rows)
  then show ?thesis
    by (simp only: split_at_append [OF header_line_no_newline] split_at_lines [OF free])
qed

lemma run_rows_done [simp]: "done_flag s \<Longrightarrow> run_rows m n ts s = []"
  by (cases ts) simp_all

lemma run_rows_append:
  "run_rows m n (xs @ ys) s = run_rows m n xs s @ run_rows m n ys (run_loop m n xs s)"
  by (induction xs arbitrary: s) simp_all

lemma list_ex_quiet: "list_all (\<lambda>u. sigterm u = None) ts \<Longrightarrow> \<not> list_ex (\<lambda>t. sigterm t \<noteq> None) ts"
  by (induction ts) simp_all

lemma row_fields_count:
  "length loads = k \<Longrightarrow> length (split_at CHR '','' (row_line ts loads)) = 1 + k"
  by (simp add: row_line_fields)

lemma initial_state_ticks [simp]: "initial_state (w\<lparr>ticks := ts\<rparr>) n = initial_state w n"
  by (simp add: initial_state_def)

lemma starts_ticks [simp]: "starts (w\<lparr>ticks := ts\<rparr>) = starts w"
  by (simp add: starts_def options_of_def)

lemma options_of_ticks [simp]: "options_of (w\<lparr>ticks := ts\<rparr>) = options_of w"
  by (simp add: options_of_def)

lemma upto_replicate: "map (\<lambda>i. c) [0..n - 1] = replicate (nat n) c"
  by (simp add: map_replicate_const)

lemma core_loads_first: "core_loads True a n = replicate (nat n) (Fin 0)"
proof -
  have "core_load True a = (\<lambda>i. Fin 0)"
    by (rule ext) (simp add: core_load_def)
  then show ?thesis by (simp add: core_loads_def upto_replicate)
qed

lemma calculate_cpu_load_ratio:
  "get_total_time cur - get_total_time prev \<noteq> 0 \<Longrightarrow>
   calculate_cpu_load cur prev =
     dmul (Fin 100)
       (dsub (Fin 1)
          (ddiv (u64_to_double (get_idle_time cur - get_idle_time prev))
                (u64_to_double (get_total_time cur - get_total_time prev))))"
  by (simp add: calculate_cpu_load_def Let_def)

lemma core_loads_unchanged:
  assumes "\<forall>i\<in>set [0..n - 1]. get_total_time (current (a i)) = get_total_time (previous (a i))"
  shows "core_loads first a n = replicate (nat n) (Fin 0)"
proof -
  have "map (core_load first a) [0..n - 1] = map (\<lambda>i. Fin 0) [0..n - 1]"
    using assms by (intro map_cong) (auto simp: core_load_def calculate_cpu_load_same)
  then show ?thesis by (simp add: core_loads_def upto_replicate)
qed


lemma round_even_error: "\<bar>of_int (round_even y) - y\<bar> \<le> 1 / 2"
proof -
  have f: "of_int \<lfloor>y\<rfloor> \<le> y" "y < of_int \<lfloor>y\<rfloor> + 1" by linarith+
  show ?thesis
  proof (cases "y - of_int \<lfloor>y\<rfloor> < 1 / 2")
    case True
    then have "(of_int (round_even y) :: rat) = of_int \<lfloor>y\<rfloor>"
      by (simp add: round_even_def Let_def)
    with True f show ?thesis by linarith
  next
    case False
    show ?thesis
    proof (cases "1 / 2 < y - of_int \<lfloor>y\<rfloor>")
      case True
      then have "(of_int (round_even y) :: rat) = of_int \<lfloor>y\<rfloor> + 1"
        by (simp add: round_even_def Let_def)
      with True f show ?thesis by linarith
    next
      case half: False
      with False have d: "y - of_int \<lfloor>y\<rfloor> = 1 / 2" by linarith
      have "(of_int (round_even y) :: rat) = of_int \<lfloor>y\<rfloor>
            \<or> (of_int (round_even y) :: rat) = of_int \<lfloor>y\<rfloor> + 1"
        by (simp add: round_even_def Let_def)
      with d show ?thesis by auto
    qed
  qed
qed

lemma round_even_of_int: "round_even (of_int m) = m"
  by (simp add: round_even_def Let_def)

lemma round_double_error:
  assumes "\<bar>x\<bar> \<le> 2 ^ 100"
  shows "\<exists>r. round_double x = Fin r \<and> \<bar>r - x\<bar> \<le> (\<bar>x\<bar> + 1) / 2 ^ 53"
proof (cases "x = 0")
  case True
  then show ?thesis by (simp add: round_double_def)
next
  case False
  define e where "e = max (ilog2 \<bar>x\<bar> - 52) (- 1074)"
  define n where "n = round_even (\<bar>x\<bar> / 2 powi e)"
  define m :: rat where "m = of_int n * 2 powi e"
  from round_double_repr(1) [OF False assms]
  have r: "round_double x = Fin (if 0 < x then m else - m)"
    unfolding m_def n_def e_def by simp
  have pe: "(0::rat) < 2 powi e" by simp
  have "\<bar>m - \<bar>x\<bar>\<bar> = \<bar>of_int n - \<bar>x\<bar> / 2 powi e\<bar> * 2 powi e"
  proof -
    have "m - \<bar>x\<bar> = (of_int n - \<bar>x\<bar> / 2 powi e) * 2 powi e"
      by (simp add: m_def algebra_simps)
    then show ?thesis by (simp add: abs_mult)
  qed
  also have "\<dots> \<le> 1 / 2 * 2 powi e"
    unfolding n_def using pe by (intro mult_right_mono round_even_error) simp
  also have "\<dots> \<le> (\<bar>x\<bar> + 1) / 2 ^ 53"
  proof (cases "ilog2 \<bar>x\<bar> - 52 \<le> - 1074")
    case True
    then have "e = - 1074" by (simp add: e_def)
    then have "(2::rat) powi e \<le> 2 powi (- 52)"
      by (intro power_int_increasing) simp_all
    then have "1 / 2 * (2::rat) powi e \<le> 1 / 2 * 2 powi (- 52)" by simp
    also have "\<dots> = 1 / 2 ^ 53" by (simp add: power_int_minus divide_simps)
    also have "\<dots> \<le> (\<bar>x\<bar> + 1) / 2 ^ 53" by (intro divide_right_mono) simp_all
    finally show ?thesis .
  next
    case notsub: False
    then have "e = ilog2 \<bar>x\<bar> - 52" by (simp add: e_def)
    then have "1 / 2 * (2::rat) powi e = 2 powi ilog2 \<bar>x\<bar> / 2 ^ 53"
      by (simp add: power_int_diff)
    also have "\<dots> \<le> \<bar>x\<bar> / 2 ^ 53"
      using False by (intro divide_right_mono ilog2_le) simp_all
    also have "\<dots> \<le> (\<bar>x\<bar> + 1) / 2 ^ 53" by (intro divide_right_mono) simp_all
    finally show ?thesis .
  qed
  finally have err: "\<bar>m - \<bar>x\<bar>\<bar> \<le> (\<bar>x\<bar> + 1) / 2 ^ 53" .
  have "\<bar>(if 0 < x then m else - m) - x\<bar> = \<bar>m - \<bar>x\<bar>\<bar>"
    using False by (cases "0 < x") (simp_all add: abs_minus_commute)
  with r err show ?thesis by simp
qed

lemma ilog2_below:
  assumes "0 < x" and "x < 2 powi k"
  shows "ilog2 x < k"
proof (rule ccontr)
  assume "\<not> ilog2 x < k"
  then have "(2::rat) powi k \<le> 2 powi ilog2 x" by (intro power_int_increasing) simp_all
  also have "\<dots> \<le> x" by (rule ilog2_le [OF assms(1)])
  finally show False using assms(2) by simp
qed

lemma round_double_of_int:
  assumes "0 \<le> n" and "n < 2 ^ 53"
  shows "round_double (of_int n) = Fin (of_int n)"
proof (cases "n = 0")
  case True
  then show ?thesis by (simp add: round_double_def)
next
  case False
  with assms have npos: "0 < n" by simp
  define x :: rat where "x = of_int n"
  have xpos: "0 < x" and ax: "\<bar>x\<bar> = x" using npos by (simp_all add: x_def)
  have "x < of_int (2 ^ 53)" unfolding x_def using assms(2) by (simp only: of_int_less_iff)
  then have x53: "x < 2 powi 53" by simp
  then have "\<bar>x\<bar> \<le> 2 ^ 100" using ax by (simp add: x_def)
  define e where "e = max (ilog2 \<bar>x\<bar> - 52) (- 1074)"
  from ilog2_below [OF xpos x53] have e0: "e \<le> 0" by (simp add: e_def ax)
  have "\<bar>x\<bar> / 2 powi e = of_int (n * 2 ^ nat (- e))"
    using e0 npos by (simp add: ax x_def power_int_def nat_minus_as_int field_simps)
  then have n: "round_even (\<bar>x\<bar> / 2 powi e) = n * 2 ^ nat (- e)"
    by (simp only: round_even_of_int)
  have "(of_int (n * 2 ^ nat (- e)) :: rat) * 2 powi e = x"
    using e0 by (simp add: x_def power_int_def field_simps)
  with round_double_repr(1) [OF _ \<open>\<bar>x\<bar> \<le> 2 ^ 100\<close>] xpos n
  have "round_double x = Fin x" by (simp add: e_def)
  then show ?thesis by (simp add: x_def)
qed

lemma u64_to_double_exact: "uint w < 2 ^ 53 \<Longrightarrow> u64_to_double w = Fin (of_int (uint w))"
  unfolding u64_to_double_def by (rule round_double_of_int) simp_all

lemma load_ratio_accurate:
  fixes i t :: rat
  assumes "0 \<le> i" and "i \<le> t" and "0 < t"
  shows "\<exists>l. dmul (Fin 100) (dsub (Fin 1) (ddiv (Fin i) (Fin t))) = Fin l
            \<and> \<bar>l - 100 * (1 - i / t)\<bar> \<le> 1 / 2 ^ 43"
proof -
  define u :: rat where "u = 1 / 2 ^ 53"
  have u: "0 < u" "u \<le> 1 / 1000" by (simp_all add: u_def)
  define x where "x = i / t"
  have x: "0 \<le> x" "x \<le> 1" using assms by (simp_all add: x_def)
  then have "\<bar>x\<bar> \<le> 2 ^ 100" by simp
  from round_double_error [OF this] obtain q
    where q: "round_double x = Fin q" and "\<bar>q - x\<bar> \<le> (\<bar>x\<bar> + 1) * u"
    by (auto simp: u_def)
  moreover have "(\<bar>x\<bar> + 1) * u \<le> 2 * u" using x u by (intro mult_right_mono) simp_all
  ultimately have qe: "\<bar>q - x\<bar> \<le> 2 * u" by linarith
  have y: "\<bar>1 - q\<bar> \<le> 2" using qe x u by linarith
  then have "\<bar>1 - q\<bar> \<le> 2 ^ 100" by simp
  from round_double_error [OF this] obtain s
    where s: "round_double (1 - q) = Fin s" and "\<bar>s - (1 - q)\<bar> \<le> (\<bar>1 - q\<bar> + 1) * u"
    by (auto simp: u_def)
  moreover have "(\<bar>1 - q\<bar> + 1) * u \<le> 3 * u" using y u by (intro mult_right_mono) simp_all
  ultimately have se: "\<bar>s - (1 - q)\<bar> \<le> 3 * u" by linarith
  have s5: "\<bar>s - (1 - x)\<bar> \<le> 5 * u" using se qe by linarith
  have sb: "\<bar>100 * s\<bar> \<le> 200" using s5 x u by linarith
  then have "\<bar>100 * s\<bar> \<le> 2 ^ 100" by simp
  from round_double_error [OF this] obtain l
    where l: "round_double (100 * s) = Fin l" and "\<bar>l - 100 * s\<bar> \<le> (\<bar>100 * s\<bar> + 1) * u"
    by (auto simp: u_def)
  moreover have "(\<bar>100 * s\<bar> + 1) * u \<le> 201 * u" using sb u by (intro mult_right_mono) simp_all
  ultimately have le: "\<bar>l - 100 * s\<bar> \<le> 201 * u" by linarith
  have "l - 100 * (1 - x) = (l - 100 * s) + 100 * (s - (1 - x))" by simp
  then have "\<bar>l - 100 * (1 - x)\<bar> \<le> \<bar>l - 100 * s\<bar> + \<bar>100 * (s - (1 - x))\<bar>"
    by (simp only: abs_triangle_ineq)
  also have "\<bar>100 * (s - (1 - x))\<bar> = 100 * \<bar>s - (1 - x)\<bar>"
    by (simp only: abs_mult abs_numeral)
  finally have sum: "\<bar>l - 100 * (1 - x)\<bar> \<le> \<bar>l - 100 * s\<bar> + 100 * \<bar>s - (1 - x)\<bar>" .
  have lin: "a \<le> 701 * u" if "a \<le> b + 100 * c" "b \<le> 201 * u" "c \<le> 5 * u"
    for a b c :: rat
    using that by linarith
  from sum le s5 have "\<bar>l - 100 * (1 - x)\<bar> \<le> 701 * u" by (rule lin)
  also have "\<dots> \<le> 1024 * u" using u by simp
  also have "\<dots> = 1 / 2 ^ 43" by (simp add: u_def)
  finally have "\<bar>l - 100 * (1 - i / t)\<bar> \<le> 1 / 2 ^ 43" by (simp add: x_def)
  moreover have "dmul (Fin 100) (dsub (Fin 1) (ddiv (Fin i) (Fin t))) = Fin l"
    using assms(3) q s l by (simp add: x_def)
  ultimately show ?thesis by blast
qed

lemma calculate_cpu_load_accurate:
  assumes "uint (get_total_time cur - get_total_time prev) < 2 ^ 53"
    and "get_total_time cur - get_total_time prev \<noteq> 0"
    and "uint (get_idle_time cur - get_idle_time prev)
         \<le> uint (get_total_time cur - get_total_time prev)"
  shows "\<exists>l. calculate_cpu_load cur prev = Fin l
    \<and> \<bar>l - 100 * (1 - of_int (uint (get_idle_time cur - get_idle_time prev))
                        / of_int (uint (get_total_time cur - get_total_time prev)))\<bar>
        \<le> 1 / 2 ^ 43"
proof -
  define td where "td = get_total_time cur - get_total_time prev"
  define idl where "idl = get_idle_time cur - get_idle_time prev"
  define rt :: rat where "rt = of_int (uint td)"
  define ri :: rat where "ri = of_int (uint idl)"
  have t: "u64_to_double td = Fin rt"
    using assms(1) unfolding td_def rt_def by (rule u64_to_double_exact)
  have "uint idl < 2 ^ 53" using assms(1,3) by (simp add: td_def idl_def)
  then have i: "u64_to_double idl = Fin ri" unfolding ri_def by (rule u64_to_double_exact)
  have "uint td \<noteq> 0" using assms(2) unfolding td_def by (simp add: uint_0_iff)
  then have "0 < uint td" by (simp add: less_le)
  then have tpos: "0 < rt" unfolding rt_def by (simp only: of_int_0_less_iff)
  have ile: "ri \<le> rt"
    using assms(3) unfolding td_def idl_def ri_def rt_def by (simp only: of_int_le_iff)
  have ipos: "0 \<le> ri" unfolding ri_def by (simp only: of_int_0_le_iff uint_ge_0)
  from load_ratio_accurate [OF ipos ile tpos] obtain l
    where l: "dmul (Fin 100) (dsub (Fin 1) (ddiv (Fin ri) (Fin rt))) = Fin l"
      and err: "\<bar>l - 100 * (1 - ri / rt)\<bar> \<le> 1 / 2 ^ 43"
    by blast
  have "calculate_cpu_load cur prev
        = dmul (Fin 100) (dsub (Fin 1) (ddiv (u64_to_double idl) (u64_to_double td)))"
    using assms(2) unfolding td_def idl_def by (rule calculate_cpu_load_ratio)
  also have "\<dots> = Fin l" by (simp only: t i l)
  finally have "calculate_cpu_load cur prev = Fin l" .
  with err show ?thesis unfolding ri_def rt_def td_def idl_def by blast
qed

lemma idle_ticks_le_total: "idle_ticks s \<le> total_ticks s"
  by (simp add: idle_ticks_def total_ticks_def)

lemma load_80_exact:
  "dmul (Fin 100) (dsub (Fin 1) (ddiv (u64_to_double 20) (u64_to_double 100))) = Fin 80"
  by code_simp

lemma calculate_cpu_load_accurate_ticks:
  assumes "total_ticks prev \<le> total_ticks cur" and "total_ticks cur < 2 ^ 64"
    and "idle_ticks prev \<le> idle_ticks cur"
    and "0 < total_ticks cur - total_ticks prev"
    and "total_ticks cur - total_ticks prev < 2 ^ 53"
    and "idle_ticks cur - idle_ticks prev \<le> total_ticks cur - total_ticks prev"
  shows "uint (get_total_time cur - get_total_time prev) = total_ticks cur - total_ticks prev"
    and "uint (get_idle_time cur - get_idle_time prev) = idle_ticks cur - idle_ticks prev"
    and "\<exists>l. calculate_cpu_load cur prev = Fin l
          \<and> \<bar>l - 100 * (1 - of_int (idle_ticks cur - idle_ticks prev)
                              / of_int (total_ticks cur - total_ticks prev))\<bar>
              \<le> 1 / 2 ^ 43"
proof -
  show t: "uint (get_total_time cur - get_total_time prev) = total_ticks cur - total_ticks prev"
    using assms(1,2) by (rule uint_total_delta)
  have "idle_ticks cur < 2 ^ 64"
    using idle_ticks_le_total [of cur] assms(2) by linarith
  with assms(3)
  show i: "uint (get_idle_time cur - get_idle_time prev) = idle_ticks cur - idle_ticks prev"
    by (rule uint_idle_delta)
  have nz: "get_total_time cur - get_total_time prev \<noteq> 0"
  proof
    assume "get_total_time cur - get_total_time prev = 0"
    then have "uint (get_total_time cur - get_total_time prev) = 0" by simp
    with t assms(4) show False by simp
  qed
  have small: "uint (get_total_time cur - get_total_time prev) < 2 ^ 53"
    using assms(5) by (simp only: t)
  have le: "uint (get_idle_time cur - get_idle_time prev)
            \<le> uint (get_total_time cur - get_total_time prev)"
    using assms(6) by (simp only: t i)
  from calculate_cpu_load_accurate [OF small nz le]
  show "\<exists>l. calculate_cpu_load cur prev = Fin l
          \<and> \<bar>l - 100 * (1 - of_int (idle_ticks cur - idle_ticks prev)
                              / of_int (total_ticks cur - total_ticks prev))\<bar>
              \<le> 1 / 2 ^ 43"
    by (simp only: t i)
qed

lemma calculate_cpu_load_80:
  assumes "get_total_time cur - get_total_time prev = 100"
    and "get_idle_time cur - get_idle_time prev = 20"
  shows "calculate_cpu_load cur prev = Fin 80"
proof -
  from assms(1) have "get_total_time cur - get_total_time prev \<noteq> 0" by simp
  from calculate_cpu_load_ratio [OF this] show ?thesis
    by (simp only: assms load_80_exact)
qed
subsection \<open>The loop without the first-reading flag\<close>

lemma core_step_fields [simp]:
  "first_reading (core_step sg i s) = first_reading s"
  "cpu_data (core_step sg i s) j = (if j = i then (cpu_data s i)\<lparr>previous := current (cpu_data s i)\<rparr> else cpu_data s j)"
  by (simp_all add: core_step_def Let_def deliver_done)

lemma core_step_unguarded_same:
  "(first_reading s \<Longrightarrow> calculate_cpu_load (current (cpu_data s i)) (previous (cpu_data s i)) = Fin 0)
   \<Longrightarrow> core_step_unguarded sg i s = core_step sg i s"
  by (cases "first_reading s") (simp_all add: core_step_unguarded_def core_step_def)

lemma core_loop_unguarded_same:
  "(\<And>j. first_reading s \<Longrightarrow> i \<le> j \<Longrightarrow> j < n \<Longrightarrow>
      calculate_cpu_load (current (cpu_data s j)) (previous (cpu_data s j)) = Fin 0)
   \<Longrightarrow> for_loop i n (core_step_unguarded sg) s = for_loop i n (core_step sg) s"
proof (induction i n "core_step sg" s rule: for_loop.induct)
  case (1 i n s)
  show ?case
  proof (cases "i < n")
    case False
    then show ?thesis by simp
  next
    case True
    have "for_loop i n (core_step_unguarded sg) s
          = for_loop (i + 1) n (core_step_unguarded sg) (core_step_unguarded sg i s)"
      using True by (rule for_loop_step)
    also have "core_step_unguarded sg i s = core_step sg i s"
      using True by (intro core_step_unguarded_same 1(2)) simp_all
    also have "for_loop (i + 1) n (core_step_unguarded sg) (core_step sg i s)
               = for_loop (i + 1) n (core_step sg) (core_step sg i s)"
      using True 1(2) by (intro 1(1)) simp_all
    also have "\<dots> = for_loop i n (core_step sg) s"
      using True by (rule for_loop_step [symmetric])
    finally show ?thesis .
  qed
qed

lemma iteration_unguarded_same:
  assumes "\<And>j. first_reading s \<Longrightarrow> 0 \<le> j \<Longrightarrow> j < n \<Longrightarrow>
      calculate_cpu_load (current (fst (parse_cpu_stats (stat t) (cpu_data s) n) j))
        (previous (fst (parse_cpu_stats (stat t) (cpu_data s) n) j)) = Fin 0"
  shows "iteration_unguarded m n t s = iteration m n t s"
proof -
  have "for_loop 0 n (core_step_unguarded (sigterm t)) s' = for_loop 0 n (core_step (sigterm t)) s'"
    if "first_reading s' = first_reading s"
      and "cpu_data s' = fst (parse_cpu_stats (stat t) (cpu_data s) n)" for s'
    using that assms by (intro core_loop_unguarded_same) simp
  then show ?thesis
    by (simp add: iteration_unguarded_def iteration_def Let_def deliver_done)
qed

lemma run_loop_unguarded_later:
  "\<not> first_reading s \<Longrightarrow> run_loop_unguarded m n ts s = run_loop m n ts s"
proof (induction ts arbitrary: s)
  case Nil
  show ?case by simp
next
  case (Cons t ts)
  have "iteration_unguarded m n t s = iteration m n t s"
    using Cons.prems by (intro iteration_unguarded_same) simp
  with Cons.IH [of "iteration m n t s"] show ?case
    by (simp add: iteration_first_reading)
qed

lemma run_loop_unguarded_same:
  assumes "\<And>t ts' j. ts = t # ts' \<Longrightarrow> 0 \<le> j \<Longrightarrow> j < n \<Longrightarrow>
      get_total_time (current (fst (parse_cpu_stats (stat t) (cpu_data s) n) j))
      = get_total_time (previous (fst (parse_cpu_stats (stat t) (cpu_data s) n) j))"
  shows "run_loop_unguarded m n ts s = run_loop m n ts s"
proof (cases ts)
  case Nil
  then show ?thesis by simp
next
  case (Cons t ts')
  have "iteration_unguarded m n t s = iteration m n t s"
    using assms [OF Cons] by (intro iteration_unguarded_same calculate_cpu_load_same)
  then show ?thesis
    using Cons by (simp add: run_loop_unguarded_later iteration_first_reading)
qed

lemma list_all_upto: "list_all P [0..n - 1] = (\<forall>j. 0 \<le> j \<and> j < n \<longrightarrow> P (j::int))"
  by (auto simp: list_all_iff)

lemma keeps_or_sets_id: "keeps_or_sets (\<lambda>x. x) obs"
  by (simp add: keeps_or_sets_def)

lemma keeps_or_sets_comp:
  assumes "keeps_or_sets f obs" and "keeps_or_sets g obs"
  shows "keeps_or_sets (\<lambda>x. g (f x)) obs"
proof (cases "\<forall>x. obs (g x) = obs x")
  case True
  with assms(1) show ?thesis by (simp add: keeps_or_sets_def)
next
  case False
  with assms(2) obtain v where "\<forall>x. obs (g x) = v" by (auto simp: keeps_or_sets_def)
  then show ?thesis by (simp add: keeps_or_sets_def)
qed

lemma keeps_or_sets_stat_field:
  "put \<in> set stat_fields \<Longrightarrow> sel \<in> set stat_selectors \<Longrightarrow> keeps_or_sets (put v) sel"
  by (auto simp: stat_fields_def stat_selectors_def keeps_or_sets_def)

lemma keeps_or_sets_foldl:
  "(\<And>p v. (p, v) \<in> set ps \<Longrightarrow> keeps_or_sets (p (g v)) obs)
   \<Longrightarrow> keeps_or_sets (\<lambda>x. foldl (\<lambda>s (put, v). put (g v) s) x ps) obs"
proof (induction ps)
  case Nil
  show ?case by (simp add: keeps_or_sets_id)
next
  case (Cons a ps)
  obtain p v where a: "a = (p, v)" by (cases a)
  have "keeps_or_sets (\<lambda>x. foldl (\<lambda>s (put, v). put (g v) s) (p (g v) x) ps) obs"
    by (rule keeps_or_sets_comp [where f = "p (g v)"]) (simp_all add: Cons a)
  then show ?case by (simp add: a)
qed

lemma keeps_or_sets_store_stats:
  assumes "sel \<in> set stat_selectors"
  shows "keeps_or_sets (store_stats vs) sel"
proof -
  have "keeps_or_sets (\<lambda>x. foldl (\<lambda>s (put, v). put (ull_of v) s) x (zip stat_fields (drop 1 vs))) sel"
    using assms by (intro keeps_or_sets_foldl keeps_or_sets_stat_field) (auto dest: set_zip_leftD)
  then show ?thesis by (simp add: store_stats_def [abs_def])
qed

lemma keeps_or_sets_store_line:
  assumes "sel \<in> set stat_selectors"
  shows "keeps_or_sets (\<lambda>a. store_line l a c) (\<lambda>a. sel (current (a k)))"
proof (cases "k = c")
  case False
  then show ?thesis by (simp add: keeps_or_sets_def store_line_def)
next
  case True
  from keeps_or_sets_store_stats [OF assms, of "fst (scan_format fmt_cpu_stats (c_string l))"]
  show ?thesis
    unfolding keeps_or_sets_def
  proof
    assume "\<forall>x. sel (store_stats (fst (scan_format fmt_cpu_stats (c_string l))) x) = sel x"
    with True show "(\<forall>x. sel (current (store_line l x c k)) = sel (current (x k))) \<or>
      (\<exists>v. \<forall>x. sel (current (store_line l x c k)) = v)"
      by (simp add: store_line_def)
  next
    assume "\<exists>v. \<forall>x. sel (store_stats (fst (scan_format fmt_cpu_stats (c_string l))) x) = v"
    then obtain v where "\<forall>x. sel (store_stats (fst (scan_format fmt_cpu_stats (c_string l))) x) = v"
      by blast
    with True have "\<forall>x. sel (current (store_line l x c k)) = v"
      by (simp add: store_line_def)
    then show "(\<forall>x. sel (current (store_line l x c k)) = sel (current (x k))) \<or>
      (\<exists>v. \<forall>x. sel (current (store_line l x c k)) = v)"
      by blast
  qed
qed

lemma keeps_or_sets_parse_loop:
  assumes "sel \<in> set stat_selectors"
  shows "keeps_or_sets (\<lambda>a. fst (parse_cpu_stats_loop ls a n c)) (\<lambda>a. sel (current (a k)))"
proof (induction ls arbitrary: c)
  case Nil
  show ?case by (simp add: keeps_or_sets_id)
next
  case (Cons l ls)
  show ?case
  proof (cases "c < n")
    case False
    then show ?thesis by (simp add: keeps_or_sets_id)
  next
    case True
    have "keeps_or_sets (\<lambda>a. fst (parse_cpu_stats_loop ls (store_line l a c) n (next_count l c)))
            (\<lambda>a. sel (current (a k)))"
      by (rule keeps_or_sets_comp [where f = "\<lambda>a. store_line l a c"])
        (rule keeps_or_sets_store_line [OF assms], rule Cons.IH)
    with True show ?thesis by (simp add: parse_loop_step)
  qed
qed

lemma parse_again_selector:
  assumes "sel \<in> set stat_selectors"
    and "\<And>j. current (b j) = current (fst (parse_cpu_stats inp a n) j)"
  shows "sel (current (fst (parse_cpu_stats inp b n) k)) = sel (current (fst (parse_cpu_stats inp a n) k))"
proof -
  let ?W = "\<lambda>a. fst (parse_cpu_stats_loop (file_lines inp) a n 0)"
  have "keeps_or_sets ?W (\<lambda>a. sel (current (a k)))"
    using assms(1) by (rule keeps_or_sets_parse_loop)
  then consider "\<forall>x. sel (current (?W x k)) = sel (current (x k))"
    | v where "\<forall>x. sel (current (?W x k)) = v"
    by (auto simp: keeps_or_sets_def)
  then have "sel (current (?W b k)) = sel (current (?W a k))"
  proof cases
    case 1
    then have "sel (current (?W b k)) = sel (current (b k))" by blast
    also have "\<dots> = sel (current (?W a k))"
      using assms(2) [of k] by (simp add: parse_cpu_stats_def)
    finally show ?thesis .
  next
    case 2
    then show ?thesis by simp
  qed
  then show ?thesis by (simp add: parse_cpu_stats_def)
qed

lemma parse_again_total:
  assumes "\<And>j. current (b j) = current (fst (parse_cpu_stats inp a n) j)"
  shows "get_total_time (current (fst (parse_cpu_stats inp b n) k))
         = get_total_time (current (fst (parse_cpu_stats inp a n) k))"
proof -
  have "sel (current (fst (parse_cpu_stats inp b n) k))
        = sel (current (fst (parse_cpu_stats inp a n) k))"
    if "sel \<in> set stat_selectors" for sel
    using that assms by (rule parse_again_selector)
  note same = this
  show ?thesis
    unfolding get_total_time_def
    using same [of user] same [of nice] same [of system] same [of idle] same [of iowait]
      same [of irq] same [of softirq] same [of steal] same [of guest] same [of guest_nice]
    by (simp add: stat_selectors_def)
qed

lemma unchanged_first_delta_zero:
  assumes "unchanged_at_first_reading w"
  shows "first_delta_zero w"
proof (cases "ticks w")
  case Nil
  then show ?thesis by (simp add: first_delta_zero_def)
next
  case (Cons t ts)
  define N where "N = count_cpus (discovery w)"
  from assms Cons have same: "stat t = initial w" by (simp add: unchanged_at_first_reading_def)
  have seeded: "current (cpu_data (initial_state w N) j) = current (fst (parse_cpu_stats (initial w) calloc_data N) j)" for j
    by (simp add: initial_state_cpu_data Let_def)
  have "first_delta w t j = 0" if "0 \<le> j" "j < N" for j
  proof -
    have "previous (first_reading_array w t j) = previous (cpu_data (initial_state w N) j)"
      by (simp add: first_reading_array_def N_def parse_cpu_stats_def parse_loop_previous)
    also have "\<dots> = current (fst (parse_cpu_stats (initial w) calloc_data N) j)"
      using that by (simp add: initial_state_cpu_data Let_def)
    finally have "get_total_time (previous (first_reading_array w t j))
        = get_total_time (current (fst (parse_cpu_stats (initial w) calloc_data N) j))"
      by simp
    also have "\<dots> = get_total_time (current (first_reading_array w t j))"
      unfolding first_reading_array_def N_def [symmetric] same
      by (rule parse_again_total [symmetric]) (rule seeded)
    finally show ?thesis by (simp add: first_delta_def)
  qed
  with Cons show ?thesis by (simp add: first_delta_zero_def list_all_upto N_def)
qed

subsection \<open>What \<^verbatim>\<open>parse_cpu_stats\<close> writes\<close>

text \<open>
  C9. For every file content and every \<open>num_cpus\<close>, \<^verbatim>\<open>parse_cpu_stats\<close> writes only to the
  entries \<open>0 .. num_cpus - 1\<close> of the array: whatever the memory held before, every entry
  at an index below 0 or from \<open>num_cpus\<close> on holds the same afterwards, also when the
  file has more matching lines than \<open>num_cpus\<close>; and the count returned lies between 0
  and \<open>num_cpus\<close>. (The statement holds for all initial contents of the memory, and the
  values written come from the file alone, so it excludes any write there.)
\<close>

theorem parse_cpu_stats_stays_in_array:
  "(i < 0 \<or> num_cpus \<le> i \<longrightarrow> fst (parse_cpu_stats file arr num_cpus) i = arr i)
   \<and> 0 \<le> snd (parse_cpu_stats file arr num_cpus)
   \<and> snd (parse_cpu_stats file arr num_cpus) \<le> max 0 num_cpus"
proof (intro conjI impI)
  assume "i < 0 \<or> num_cpus \<le> i"
  then show "fst (parse_cpu_stats file arr num_cpus) i = arr i"
    unfolding parse_cpu_stats_def by (rule parse_loop_frame)
next
  show "0 \<le> snd (parse_cpu_stats file arr num_cpus)"
    unfolding parse_cpu_stats_def by (rule count_le_parse_loop)
next
  show "snd (parse_cpu_stats file arr num_cpus) \<le> max 0 num_cpus"
  proof (cases "0 \<le> num_cpus")
    case True
    then show ?thesis
      unfolding parse_cpu_stats_def using parse_loop_upper [of 0 num_cpus] by simp
  next
    case False
    then show ?thesis unfolding parse_cpu_stats_def by simp
  qed
qed

theorem parse_cpu_stats_stays_in_array_witness:
  "(2::int) \<le> 2
   \<and> fst (parse_cpu_stats three_cores_stat calloc_data 2) 2 = calloc_data 2
   \<and> snd (parse_cpu_stats three_cores_stat calloc_data 2) = 2"
proof -
  have "snd (parse_cpu_stats three_cores_stat calloc_data 2) = 2"
    by code_simp
  with parse_cpu_stats_stays_in_array [of 2 2 three_cores_stat calloc_data]
  show ?thesis by simp
qed

text \<open>
  C10 says that the entries from the returned count \<open>k\<close> on keep their \<^verbatim>\<open>current\<close>
  snapshot, and that the load computed for them afterwards is 0.0. The code accepts a
  line only when it gives all eleven conversions, but it has \<^verbatim>\<open>sscanf\<close> store straight
  into entry \<open>k\<close>: a line that is cut short has overwritten the first counters of
  entry \<open>k\<close> by the time it is rejected. On a zeroed array of two cores, the file
  \<^verbatim>\<open>cpu0 10 0 0 40 0 0 0 0 0 0\<close>, \<^verbatim>\<open>cpu1 25\<close> gives \<open>k = 1\<close>, changes entry 1, and the
  load then computed for core 1 is 100, not 0.0.
\<close>

theorem parse_cpu_stats_cut_short_line:
  "snd (parse_cpu_stats cut_short_stat calloc_data 2) = 1
   \<and> current (fst (parse_cpu_stats cut_short_stat calloc_data 2) 1) \<noteq> current (calloc_data 1)
   \<and> user (current (fst (parse_cpu_stats cut_short_stat calloc_data 2) 1)) = 25
   \<and> calculate_cpu_load (current (fst (parse_cpu_stats cut_short_stat calloc_data 2) 1))
         (previous (fst (parse_cpu_stats cut_short_stat calloc_data 2) 1)) = Fin 100"
  by code_simp

text \<open>
  The same happens on a file whose lines have nine counters, none of which is accepted:
  the count stays 0, and entry 0 ends up with the counters of the last line.
\<close>

lemma parse_cpu_stats_nine_columns:
  "count_cpus nine_column_stat = 3
   \<and> snd (parse_cpu_stats nine_column_stat calloc_data 3) = 0
   \<and> user (current (fst (parse_cpu_stats nine_column_stat calloc_data 3) 0)) = 20
   \<and> idle (current (fst (parse_cpu_stats nine_column_stat calloc_data 3) 0)) = 30"
  by code_simp

text \<open>
  What holds of the frame for every file: \<^verbatim>\<open>parse_cpu_stats\<close> leaves every \<^verbatim>\<open>previous\<close>
  snapshot unchanged, and every entry at an index above the returned count \<open>k\<close>. The
  entry at index \<open>k\<close> itself is unchanged if the file settles: every line on which
  \<^verbatim>\<open>sscanf\<close> stores some counters without completing is followed, later in the file, by
  a line that gives all eleven conversions.
\<close>

lemma parse_cpu_stats_frame:
  "previous (fst (parse_cpu_stats file arr num_cpus) i) = previous (arr i)
   \<and> (snd (parse_cpu_stats file arr num_cpus) < i \<longrightarrow>
        fst (parse_cpu_stats file arr num_cpus) i = arr i)
   \<and> (settles (file_lines file)
        \<and> snd (parse_cpu_stats file arr num_cpus) \<le> i \<longrightarrow>
        fst (parse_cpu_stats file arr num_cpus) i = arr i)
   \<and> (fst (parse_cpu_stats file arr num_cpus) i = arr i
        \<and> previous (arr i) = current (arr i) \<longrightarrow>
        calculate_cpu_load (current (fst (parse_cpu_stats file arr num_cpus) i))
          (previous (fst (parse_cpu_stats file arr num_cpus) i)) = Fin 0)"
proof (intro conjI impI)
  show "previous (fst (parse_cpu_stats file arr num_cpus) i) = previous (arr i)"
    unfolding parse_cpu_stats_def by (rule parse_loop_previous)
next
  assume "snd (parse_cpu_stats file arr num_cpus) < i"
  then show "fst (parse_cpu_stats file arr num_cpus) i = arr i"
    unfolding parse_cpu_stats_def by (rule parse_loop_beyond_count)
next
  assume "settles (file_lines file)
          \<and> snd (parse_cpu_stats file arr num_cpus) \<le> i"
  then show "fst (parse_cpu_stats file arr num_cpus) i = arr i"
    unfolding parse_cpu_stats_def by (intro parse_loop_from_count) simp_all
next
  assume "fst (parse_cpu_stats file arr num_cpus) i = arr i
          \<and> previous (arr i) = current (arr i)"
  then show "calculate_cpu_load (current (fst (parse_cpu_stats file arr num_cpus) i))
          (previous (fst (parse_cpu_stats file arr num_cpus) i)) = Fin 0"
    by (simp add: calculate_cpu_load_same)
qed

lemma parse_cpu_stats_frame_example:
  "snd (parse_cpu_stats example_stat calloc_data 3) = 2
   \<and> settles (file_lines example_stat)
   \<and> previous (calloc_data 2) = current (calloc_data 2)
   \<and> fst (parse_cpu_stats example_stat calloc_data 3) 2 = calloc_data 2
   \<and> fst (parse_cpu_stats example_stat calloc_data 3) 3 = calloc_data 3
   \<and> calculate_cpu_load (current (fst (parse_cpu_stats example_stat calloc_data 3) 2))
        (previous (fst (parse_cpu_stats example_stat calloc_data 3) 2)) = Fin 0"
proof -
  have k: "snd (parse_cpu_stats example_stat calloc_data 3) = 2"
    by code_simp
  have whole: "settles (file_lines example_stat)"
    by code_simp
  have seeded: "previous (calloc_data 2) = current (calloc_data 2)"
    by (simp add: calloc_data_def)
  from parse_cpu_stats_frame [of example_stat calloc_data 3 2]
       parse_cpu_stats_frame [of example_stat calloc_data 3 3] k whole seeded
  show ?thesis by simp
qed

subsection \<open>The load of one core\<close>

text \<open>
  C4. When the total-time delta of a core is zero, \<^verbatim>\<open>calculate_cpu_load\<close> returns exactly
  0.0. The division is never executed with a zero divisor: where it is executed the
  divisor \<^verbatim>\<open>(double)total_diff\<close> is a positive number, and the result of
  \<^verbatim>\<open>calculate_cpu_load\<close> is always finite (a division by zero would give an infinity or
  a NaN). Consequently, when an iteration of the loop reads the same counters as the
  iteration before it, its row reports 0.0, printed \<^verbatim>\<open>0.00\<close>, for every core.
\<close>

theorem zero_total_delta_gives_zero_load:
  "(get_total_time cur - get_total_time prev = 0 \<longrightarrow> calculate_cpu_load cur prev = Fin 0)
   \<and> (get_total_time cur - get_total_time prev \<noteq> 0 \<longrightarrow>
        (\<exists>b. u64_to_double (get_total_time cur - get_total_time prev) = Fin b \<and> 0 < b))
   \<and> is_finite (calculate_cpu_load cur prev)
   \<and> ((\<forall>i\<in>set [0..n - 1].
          current (fst (parse_cpu_stats (stat t2) (cpu_data (iteration m n t1 s)) n) i)
          = current (cpu_data (iteration m n t1 s) i)) \<longrightarrow>
        out (iteration m n t2 (iteration m n t1 s))
        = out (iteration m n t1 s) @ row_line (clock t2) (replicate (nat n) (Fin 0)) @ [newline])
   \<and> printf_fixed 2 (Fin 0) = ''0.00''"
proof (intro conjI impI)
  assume "get_total_time cur - get_total_time prev = 0"
  then show "calculate_cpu_load cur prev = Fin 0"
    by (simp add: calculate_cpu_load_same)
next
  assume "get_total_time cur - get_total_time prev \<noteq> 0"
  from u64_to_double_nonzero [OF this]
  show "\<exists>b. u64_to_double (get_total_time cur - get_total_time prev) = Fin b \<and> 0 < b"
    by fastforce
next
  show "is_finite (calculate_cpu_load cur prev)"
    by (rule calculate_cpu_load_finite)
next
  let ?s1 = "iteration m n t1 s"
  let ?a = "fst (parse_cpu_stats (stat t2) (cpu_data ?s1) n)"
  assume same: "\<forall>i\<in>set [0..n - 1]. current (?a i) = current (cpu_data ?s1 i)"
  have "get_total_time (current (?a i)) = get_total_time (previous (?a i))"
    if "i \<in> set [0..n - 1]" for i
  proof -
    have "previous (?a i) = previous (cpu_data ?s1 i)"
      unfolding parse_cpu_stats_def by (rule parse_loop_previous)
    also have "\<dots> = current (cpu_data ?s1 i)"
      using that by (simp add: iteration_cpu_data Let_def)
    also have "\<dots> = current (?a i)" using same that by simp
    finally show ?thesis by simp
  qed
  then have "core_loads (first_reading ?s1) ?a n = replicate (nat n) (Fin 0)"
    by (intro core_loads_unchanged) simp
  then show "out (iteration m n t2 ?s1)
             = out ?s1 @ row_line (clock t2) (replicate (nat n) (Fin 0)) @ [newline]"
    by (simp add: iteration_out)
next
  show "printf_fixed 2 (Fin 0) = ''0.00''" by (rule printf_zero)
qed

theorem zero_total_delta_gives_zero_load_witness:
  "get_total_time snapshot_after - get_total_time snapshot_after = 0
   \<and> calculate_cpu_load snapshot_after snapshot_after = Fin 0
   \<and> get_total_time snapshot_after - get_total_time snapshot_before \<noteq> 0
   \<and> (\<exists>b. u64_to_double (get_total_time snapshot_after - get_total_time snapshot_before) = Fin b
           \<and> 0 < b)
   \<and> list_all (\<lambda>i.
         current (fst (parse_cpu_stats busier_stat
                    (cpu_data (iteration False 3 (tick_at 101 busier_stat None)
                                 (initial_state example_world 3))) 3) i)
         = current (cpu_data (iteration False 3 (tick_at 101 busier_stat None)
                                 (initial_state example_world 3)) i)) [0..2]
   \<and> out (iteration False 3 (tick_at 102 busier_stat (Some 1))
             (iteration False 3 (tick_at 101 busier_stat None) (initial_state example_world 3)))
     = out (iteration False 3 (tick_at 101 busier_stat None) (initial_state example_world 3))
       @ ''102.500000,0.00,0.00,0.00\<newline>''"
proof -
  let ?s1 = "iteration False 3 (tick_at 101 busier_stat None) (initial_state example_world 3)"
  have d0: "get_total_time snapshot_after - get_total_time snapshot_after = 0"
    by simp
  have d1: "get_total_time snapshot_after - get_total_time snapshot_before \<noteq> 0"
    by code_simp
  have same: "list_all (\<lambda>i.
         current (fst (parse_cpu_stats busier_stat (cpu_data ?s1) 3) i)
         = current (cpu_data ?s1 i)) [0..2]"
    by code_simp
  have row: "row_line (clock (tick_at 102 busier_stat (Some 1))) (replicate (nat 3) (Fin 0))
             @ [newline] = ''102.500000,0.00,0.00,0.00\<newline>''"
    by code_simp
  note inst = zero_total_delta_gives_zero_load
    [of snapshot_after snapshot_after 3 "tick_at 102 busier_stat (Some 1)" False
        "tick_at 101 busier_stat None" "initial_state example_world 3"]
    zero_total_delta_gives_zero_load
    [of snapshot_after snapshot_before 3 "tick_at 102 busier_stat (Some 1)" False
        "tick_at 101 busier_stat None" "initial_state example_world 3"]
  have ball: "\<forall>i\<in>set [0..3 - 1].
         current (fst (parse_cpu_stats (stat (tick_at 102 busier_stat (Some 1))) (cpu_data ?s1) 3) i)
         = current (cpu_data ?s1 i)"
    by code_simp
  from inst d0 d1 same ball row show ?thesis by simp
qed




subsection \<open>The first-reading flag\<close>

text \<open>
  C2 says that the total-time delta of the first iteration is zero for every core,
  because \<^verbatim>\<open>previous\<close> was seeded from \<^verbatim>\<open>current\<close>, and that the program without the
  flag emits the same output on every input. But the first iteration reads the counter
  file again before it computes the loads. In the run below the counters of core 0 moved
  by 100 ticks, 20 of them idle, between the seeding and the first iteration: the delta
  is 100, \<^verbatim>\<open>main\<close> prints \<^verbatim>\<open>0.00\<close> and the program without the flag prints \<^verbatim>\<open>80.00\<close>.
\<close>

theorem first_reading_flag_observable:
  "initial restless_world = example_stat
   \<and> ticks restless_world = [tick_at 100 busier_stat None]
   \<and> first_delta restless_world (tick_at 100 busier_stat None) 0 = 100
   \<and> stdout (main restless_world)
       = ''time,cpu0_load,cpu1_load,cpu2_load\<newline>'' @ ''100.500000,0.00,0.00,0.00\<newline>''
   \<and> stdout (main_unguarded restless_world)
       = ''time,cpu0_load,cpu1_load,cpu2_load\<newline>'' @ ''100.500000,80.00,0.00,0.00\<newline>''
   \<and> stdout (main_unguarded restless_world) \<noteq> stdout (main restless_world)"
proof -
  have seeded: "initial restless_world = example_stat"
    by (simp add: restless_world_def example_world_def)
  have first: "ticks restless_world = [tick_at 100 busier_stat None]"
    by (simp add: restless_world_def)
  have delta: "first_delta restless_world (tick_at 100 busier_stat None) 0 = 100"
    by code_simp
  have guarded: "stdout (main restless_world)
       = ''time,cpu0_load,cpu1_load,cpu2_load\<newline>'' @ ''100.500000,0.00,0.00,0.00\<newline>''"
    by code_simp
  have unguarded: "stdout (main_unguarded restless_world)
       = ''time,cpu0_load,cpu1_load,cpu2_load\<newline>'' @ ''100.500000,80.00,0.00,0.00\<newline>''"
    by code_simp
  have "stdout (main_unguarded restless_world) \<noteq> stdout (main restless_world)"
    unfolding guarded unfolding unguarded by simp
  with seeded first delta guarded unguarded show ?thesis
    by (intro conjI)
qed

text \<open>
  C2, with the condition it needs. If the counter file holds at the first iteration what
  it held when the array was seeded, or, more generally, if the totals the first
  iteration reads are the seeded totals, then the total-time delta of the first
  iteration is zero for every core, the zero-division guard alone reports 0.0 for
  every core, and the program without the flag has the outcome of \<^verbatim>\<open>main\<close>: the same
  output, exit status and trace markers.
\<close>

theorem first_reading_flag_redundant:
  assumes "unchanged_at_first_reading w \<or> first_delta_zero w"
  shows "first_delta_zero w
    \<and> list_all (\<lambda>l. l = Fin 0) (first_guard_loads w)
    \<and> main_unguarded w = main w
    \<and> stdout (main_unguarded w) = stdout (main w)"
proof -
  define N where "N = count_cpus (discovery w)"
  from assms have zero: "first_delta_zero w"
    by (auto intro: unchanged_first_delta_zero)
  have "run_loop_unguarded m N (ticks w) (initial_state w N)
        = run_loop m N (ticks w) (initial_state w N)" for m
  proof (rule run_loop_unguarded_same)
    fix t ts' j
    assume "ticks w = t # ts'" "0 \<le> j" "j < N"
    with zero have "first_delta w t j = 0"
      by (simp add: first_delta_zero_def list_all_upto N_def)
    then show "get_total_time (current (fst (parse_cpu_stats (stat t) (cpu_data (initial_state w N)) N) j))
      = get_total_time (previous (fst (parse_cpu_stats (stat t) (cpu_data (initial_state w N)) N) j))"
      by (simp add: first_delta_def first_reading_array_def N_def)
  qed
  then have same: "main_unguarded w = main w"
    by (simp add: main_unguarded_def main_def N_def Let_def)
  have guard: "list_all (\<lambda>l. l = Fin 0) (first_guard_loads w)"
  proof (cases "ticks w")
    case Nil
    then show ?thesis by (simp add: first_guard_loads_def)
  next
    case (Cons t ts)
    have "calculate_cpu_load (current (first_reading_array w t j))
            (previous (first_reading_array w t j)) = Fin 0"
      if "0 \<le> j" "j < N" for j
    proof -
      from zero Cons that have "first_delta w t j = 0"
        by (simp add: first_delta_zero_def list_all_upto N_def)
      then show ?thesis by (intro calculate_cpu_load_same) (simp add: first_delta_def)
    qed
    with Cons show ?thesis
      by (simp add: first_guard_loads_def list_all_iff N_def)
  qed
  from zero guard same show ?thesis by simp
qed

theorem first_reading_flag_redundant_witness:
  "unchanged_at_first_reading example_world
   \<and> first_delta_zero example_world
   \<and> first_guard_loads example_world = [Fin 0, Fin 0, Fin 0]
   \<and> main_unguarded example_world = main example_world
   \<and> stdout (main_unguarded example_world)
       = ''time,cpu0_load,cpu1_load,cpu2_load\<newline>'' @
         ''100.500000,0.00,0.00,0.00\<newline>'' @
         ''101.500000,80.00,0.00,0.00\<newline>'' @
         ''102.500000,0.00,0.00,0.00\<newline>''"
proof -
  have h: "unchanged_at_first_reading example_world" by code_simp
  have printed: "stdout (main example_world)
       = ''time,cpu0_load,cpu1_load,cpu2_load\<newline>'' @
         ''100.500000,0.00,0.00,0.00\<newline>'' @
         ''101.500000,80.00,0.00,0.00\<newline>'' @
         ''102.500000,0.00,0.00,0.00\<newline>''"
    by code_simp
  have loads: "first_guard_loads example_world = [Fin 0, Fin 0, Fin 0]" by code_simp
  from first_reading_flag_redundant [of example_world] h
  have "first_delta_zero example_world \<and> main_unguarded example_world = main example_world"
    by blast
  with h printed loads show ?thesis by simp
qed

subsection \<open>The rows of a run\<close>

text \<open>
  C3. In every run that reaches the loop and executes an iteration, whatever the counter
  file holds at any of its readings, the first data row is the timestamp followed by
  0.0, printed \<^verbatim>\<open>0.00\<close>, for every core: on the first reading the loads are all 0.0
  for any content of the array.
\<close>

theorem first_row_reports_zero:
  assumes "starts w" and "\<not> sigterm_before_loop w" and "ticks w = t # ts"
  shows "(\<exists>rest. stdout (main w)
            = header_line (count_cpus (discovery w)) @ [newline]
              @ row_line (clock t) (replicate (nat (count_cpus (discovery w))) (Fin 0))
              @ [newline] @ rest)
    \<and> split_at CHR '','' (row_line (clock t) (replicate k (Fin 0)))
        = printf_fixed 6 (time_float (clock t)) # replicate k ''0.00''
    \<and> core_loads True a n = replicate (nat n) (Fin 0)"
proof -
  define N where "N = count_cpus (discovery w)"
  define mk where "mk = should_write_marker (options_of w)"
  have "run_rows mk N (ticks w) (initial_state w N)
        = row_line (clock t) (replicate (nat N) (Fin 0))
          # run_rows mk N ts (iteration mk N t (initial_state w N))"
    using assms(2,3) by (simp add: core_loads_first)
  with assms(1)
  have "stdout (main w)
        = header_line N @ [newline] @ row_line (clock t) (replicate (nat N) (Fin 0)) @ [newline]
          @ concat (map (\<lambda>r. r @ [newline])
              (run_rows mk N ts (iteration mk N t (initial_state w N))))"
    by (simp add: stdout_main_rows N_def mk_def)
  then have "\<exists>rest. stdout (main w)
        = header_line N @ [newline] @ row_line (clock t) (replicate (nat N) (Fin 0)) @ [newline]
          @ rest"
    by blast
  then show ?thesis
    by (simp add: N_def row_line_fields core_loads_first printf_zero)
qed

theorem first_row_reports_zero_witness:
  "starts example_world \<and> \<not> sigterm_before_loop example_world
   \<and> ticks example_world
       = tick_at 100 example_stat None
         # [tick_at 101 busier_stat None, tick_at 102 busier_stat None]
   \<and> count_cpus (discovery example_world) = 3
   \<and> row_line (clock (tick_at 100 example_stat None)) (replicate 3 (Fin 0))
       = ''100.500000,0.00,0.00,0.00''
   \<and> (\<exists>rest. stdout (main example_world)
         = header_line (count_cpus (discovery example_world)) @ [newline]
           @ row_line (clock (tick_at 100 example_stat None))
               (replicate (nat (count_cpus (discovery example_world))) (Fin 0))
           @ [newline] @ rest)"
proof -
  have h1: "starts example_world" by code_simp
  have h2: "\<not> sigterm_before_loop example_world" by code_simp
  have h3: "ticks example_world
       = tick_at 100 example_stat None
         # [tick_at 101 busier_stat None, tick_at 102 busier_stat None]"
    by (simp add: example_world_def)
  have n: "count_cpus (discovery example_world) = 3" by code_simp
  have row: "row_line (clock (tick_at 100 example_stat None)) (replicate 3 (Fin 0))
       = ''100.500000,0.00,0.00,0.00''"
    by code_simp
  from first_row_reports_zero [OF h1 h2 h3] h1 h2 h3 n row show ?thesis
    by blast
qed

text \<open>
  C6. With \<open>N\<close> the discovered core count, the output of every run that reaches the loop
  is the header line \<^verbatim>\<open>time,cpu0_load,...,cpu{N-1}_load\<close> followed by data rows only: the
  header is the first line, no data row equals it, and it has \<open>1 + N\<close> fields. Every
  data row has exactly \<open>1 + N\<close> comma-separated fields, the timestamp of its tick
  printed with \<^verbatim>\<open>%f\<close> and then \<open>N\<close> loads printed with \<^verbatim>\<open>%.2f\<close>; there is at most one
  row per tick, and exactly one per tick while no signal arrives. The row an iteration
  appends holds the loads of the cores in the order of their index.
\<close>

theorem csv_rows_have_one_field_per_core:
  assumes "starts w"
  shows "(\<exists>rows.
            split_at newline (stdout (main w)) = header_line (count_cpus (discovery w)) # rows @ [[]]
            \<and> header_line (count_cpus (discovery w)) \<notin> set rows
            \<and> length rows \<le> length (ticks w)
            \<and> (\<not> signalled w \<longrightarrow> length rows = length (ticks w))
            \<and> (\<forall>r\<in>set rows. \<exists>t loads.
                  t \<in> set (ticks w) \<and> length loads = nat (count_cpus (discovery w))
                  \<and> split_at CHR '','' r
                      = printf_fixed 6 (time_float (clock t)) # map (printf_fixed 2) loads
                  \<and> length (split_at CHR '','' r) = 1 + nat (count_cpus (discovery w))))
    \<and> split_at CHR '','' (header_line (count_cpus (discovery w)))
        = ''time'' # map (\<lambda>i. ''cpu'' @ printf_d i @ ''_load'') [0..count_cpus (discovery w) - 1]
    \<and> length (split_at CHR '','' (header_line (count_cpus (discovery w))))
        = 1 + nat (count_cpus (discovery w))
    \<and> out (iteration m n t s)
        = out s
          @ row_line (clock t)
              (map (core_load (first_reading s) (fst (parse_cpu_stats (stat t) (cpu_data s) n)))
                 [0..n - 1])
          @ [newline]"
proof -
  define N where "N = count_cpus (discovery w)"
  define rows where
    "rows = run_rows (should_write_marker (options_of w)) N (ticks w) (initial_state w N)"
  have split: "split_at newline (stdout (main w)) = header_line N # rows @ [[]]"
    using split_stdout [OF assms] by (simp add: N_def rows_def)
  have shape: "\<exists>t loads. t \<in> set (ticks w) \<and> length loads = nat N \<and> r = row_line (clock t) loads"
    if "r \<in> set rows" for r
    using that unfolding rows_def by (rule run_rows_shape)
  have other: "header_line N \<notin> set rows"
  proof
    assume "header_line N \<in> set rows"
    from shape [OF this] show False by (auto simp: row_line_not_header [symmetric])
  qed
  have len: "length rows \<le> length (ticks w)"
    unfolding rows_def by (rule run_rows_length)
  have all: "length rows = length (ticks w)" if "\<not> signalled w"
  proof -
    from that have "\<not> sigterm_before_loop w"
      and "list_all (\<lambda>t. sigterm t = None) (ticks w)"
      by (auto simp: signalled_def list_all_iff list_ex_iff)
    then show ?thesis unfolding rows_def by (intro run_rows_quiet) simp_all
  qed
  have fields: "\<exists>t loads.
                  t \<in> set (ticks w) \<and> length loads = nat N
                  \<and> split_at CHR '','' r
                      = printf_fixed 6 (time_float (clock t)) # map (printf_fixed 2) loads
                  \<and> length (split_at CHR '','' r) = 1 + nat N"
    if "r \<in> set rows" for r
  proof -
    from shape [OF that] obtain t loads
      where "t \<in> set (ticks w)" "length loads = nat N" "r = row_line (clock t) loads"
      by blast
    then show ?thesis
      by (intro exI [of _ t] exI [of _ loads]) (simp add: row_line_fields)
  qed
  have first: "\<exists>rows.
            split_at newline (stdout (main w)) = header_line N # rows @ [[]]
            \<and> header_line N \<notin> set rows
            \<and> length rows \<le> length (ticks w)
            \<and> (\<not> signalled w \<longrightarrow> length rows = length (ticks w))
            \<and> (\<forall>r\<in>set rows. \<exists>t loads.
                  t \<in> set (ticks w) \<and> length loads = nat N
                  \<and> split_at CHR '','' r
                      = printf_fixed 6 (time_float (clock t)) # map (printf_fixed 2) loads
                  \<and> length (split_at CHR '','' r) = 1 + nat N)"
    using split other len all fields by (intro exI [of _ rows]) blast
  have header: "length (split_at CHR '','' (header_line N)) = 1 + nat N"
    by (simp add: header_line_fields)
  from first header show ?thesis
    by (simp add: N_def header_line_fields iteration_out core_loads_def)
qed

theorem csv_rows_have_one_field_per_core_witness:
  "starts example_world
   \<and> \<not> signalled example_world
   \<and> split_at newline (stdout (main example_world))
       = [''time,cpu0_load,cpu1_load,cpu2_load'',
          ''100.500000,0.00,0.00,0.00'',
          ''101.500000,80.00,0.00,0.00'',
          ''102.500000,0.00,0.00,0.00'',
          []]
   \<and> split_at CHR '','' (header_line (count_cpus (discovery example_world)))
       = [''time'', ''cpu0_load'', ''cpu1_load'', ''cpu2_load'']
   \<and> (\<exists>rows.
         split_at newline (stdout (main example_world))
           = header_line (count_cpus (discovery example_world)) # rows @ [[]]
         \<and> length rows = length (ticks example_world))"
proof -
  have h: "starts example_world" by code_simp
  have q: "\<not> signalled example_world" by code_simp
  have printed: "split_at newline (stdout (main example_world))
       = [''time,cpu0_load,cpu1_load,cpu2_load'',
          ''100.500000,0.00,0.00,0.00'',
          ''101.500000,80.00,0.00,0.00'',
          ''102.500000,0.00,0.00,0.00'',
          []]"
    by code_simp
  have header: "split_at CHR '','' (header_line (count_cpus (discovery example_world)))
       = [''time'', ''cpu0_load'', ''cpu1_load'', ''cpu2_load'']"
    by code_simp
  from csv_rows_have_one_field_per_core [OF h] obtain rows
    where "split_at newline (stdout (main example_world))
           = header_line (count_cpus (discovery example_world)) # rows @ [[]]"
      and "\<not> signalled example_world \<longrightarrow> length rows = length (ticks example_world)"
    by blast
  with q have "\<exists>rows.
         split_at newline (stdout (main example_world))
           = header_line (count_cpus (discovery example_world)) # rows @ [[]]
         \<and> length rows = length (ticks example_world)"
    by blast
  with h q printed header show ?thesis
    by (intro conjI)
qed



subsection \<open>Exit codes\<close>

text \<open>
  C8. The exit status is 1 when help is requested (or an option is not recognised),
  2 when the counter file cannot be opened, 3 when no core is counted, 4 when the
  array cannot be allocated, and 0 when the loop is left after the termination signal;
  a run in which no signal arrives has not exited. So the statuses of five runs, one
  for each outcome, are pairwise distinct.
\<close>

theorem exit_codes_distinct:
  "(show_help (options_of w) \<longrightarrow> exit_status (main w) = Some 1)
   \<and> (\<not> show_help (options_of w) \<and> \<not> fopen_ok w \<longrightarrow> exit_status (main w) = Some 2)
   \<and> (\<not> show_help (options_of w) \<and> fopen_ok w \<and> count_cpus (discovery w) = 0 \<longrightarrow>
        exit_status (main w) = Some 3)
   \<and> (\<not> show_help (options_of w) \<and> fopen_ok w \<and> count_cpus (discovery w) \<noteq> 0
        \<and> \<not> calloc_ok w \<longrightarrow> exit_status (main w) = Some 4)
   \<and> (starts w \<and> signalled w \<longrightarrow> exit_status (main w) = Some 0)
   \<and> (starts w \<and> \<not> signalled w \<longrightarrow> exit_status (main w) = None)
   \<and> (starts w0 \<and> signalled w0
        \<and> show_help (options_of w1)
        \<and> \<not> show_help (options_of w2) \<and> \<not> fopen_ok w2
        \<and> \<not> show_help (options_of w3) \<and> fopen_ok w3 \<and> count_cpus (discovery w3) = 0
        \<and> \<not> show_help (options_of w4) \<and> fopen_ok w4 \<and> count_cpus (discovery w4) \<noteq> 0
        \<and> \<not> calloc_ok w4 \<longrightarrow>
        distinct [exit_status (main w0), exit_status (main w1), exit_status (main w2),
                  exit_status (main w3), exit_status (main w4)])"
proof -
  have asked: "exit_status (main w) = Some 1" if "show_help (options_of w)" for w
    using that by (simp add: main_def options_of_def Let_def exited_def)
  have unreadable: "exit_status (main w) = Some 2"
    if "\<not> show_help (options_of w)" "\<not> fopen_ok w" for w
    using that by (simp add: main_def options_of_def Let_def exited_def)
  have coreless: "exit_status (main w) = Some 3"
    if "\<not> show_help (options_of w)" "fopen_ok w" "count_cpus (discovery w) = 0" for w
    using that by (simp add: main_def options_of_def Let_def exited_def)
  have nomem: "exit_status (main w) = Some 4"
    if "\<not> show_help (options_of w)" "fopen_ok w" "count_cpus (discovery w) \<noteq> 0"
      "\<not> calloc_ok w" for w
    using that by (simp add: main_def options_of_def Let_def exited_def)
  have clean: "exit_status (main w) = Some 0" if "starts w" "signalled w" for w
    using that by (simp add: exit_status_main)
  have running: "exit_status (main w) = None" if "starts w" "\<not> signalled w" for w
    using that by (simp add: exit_status_main)
  show ?thesis
    using asked [of w] unreadable [of w] coreless [of w] nomem [of w] clean [of w] running [of w]
      clean [of w0] asked [of w1] unreadable [of w2] coreless [of w3] nomem [of w4]
    by simp
qed

theorem exit_codes_distinct_witness:
  "starts signalled_world \<and> signalled signalled_world
   \<and> show_help (options_of help_world)
   \<and> \<not> show_help (options_of unreadable_world) \<and> \<not> fopen_ok unreadable_world
   \<and> \<not> show_help (options_of coreless_world) \<and> fopen_ok coreless_world
   \<and> count_cpus (discovery coreless_world) = 0
   \<and> \<not> show_help (options_of nomem_world) \<and> fopen_ok nomem_world
   \<and> count_cpus (discovery nomem_world) \<noteq> 0 \<and> \<not> calloc_ok nomem_world
   \<and> starts example_world \<and> \<not> signalled example_world
   \<and> [exit_status (main signalled_world), exit_status (main help_world),
       exit_status (main unreadable_world), exit_status (main coreless_world),
       exit_status (main nomem_world), exit_status (main example_world)]
      = [Some 0, Some 1, Some 2, Some 3, Some 4, None]
   \<and> distinct [exit_status (main signalled_world), exit_status (main help_world),
       exit_status (main unreadable_world), exit_status (main coreless_world),
       exit_status (main nomem_world)]"
proof -
  have s: "starts signalled_world" "signalled signalled_world" by code_simp+
  have h: "show_help (options_of help_world)" by code_simp
  have u: "\<not> show_help (options_of unreadable_world)" "\<not> fopen_ok unreadable_world"
    by code_simp+
  have c: "\<not> show_help (options_of coreless_world)" "fopen_ok coreless_world"
    "count_cpus (discovery coreless_world) = 0"
    by code_simp+
  have m: "\<not> show_help (options_of nomem_world)" "fopen_ok nomem_world"
    "count_cpus (discovery nomem_world) \<noteq> 0" "\<not> calloc_ok nomem_world"
    by code_simp+
  have e: "starts example_world" "\<not> signalled example_world" by code_simp+
  from exit_codes_distinct [of help_world signalled_world help_world unreadable_world
         coreless_world nomem_world]
       exit_codes_distinct [of unreadable_world signalled_world help_world unreadable_world
         coreless_world nomem_world]
       exit_codes_distinct [of coreless_world signalled_world help_world unreadable_world
         coreless_world nomem_world]
       exit_codes_distinct [of nomem_world signalled_world help_world unreadable_world
         coreless_world nomem_world]
       exit_codes_distinct [of signalled_world signalled_world help_world unreadable_world
         coreless_world nomem_world]
       exit_codes_distinct [of example_world signalled_world help_world unreadable_world
         coreless_world nomem_world]
       s h u c m e
  show ?thesis by simp
qed

subsection \<open>Topology discovery\<close>

text \<open>
  C1. On a counter file with an aggregate line \<^verbatim>\<open>cpu 1 2 3\<close> and the per-core lines
  \<^verbatim>\<open>cpu0 ...\<close> and \<^verbatim>\<open>cpu1 ...\<close>, topology discovery is expected to return 2. The
  conversion \<^verbatim>\<open>%d\<close> skips the white space after the tag, so the aggregate line matches
  \<^verbatim>\<open>"cpu%d"\<close> as well, and \<^verbatim>\<open>count_cpus\<close> returns 3.
\<close>

theorem count_cpus_counts_aggregate_line:
  "count_cpus (''cpu 1 2 3\<newline>'' @ ''cpu0 4 5 6\<newline>'' @ ''cpu1 7 8 9\<newline>'') = 3
   \<and> count_cpus example_stat = 3"
  by code_simp

end
